theory Spec2Isabelle
  imports Main
begin

section \<open>The treap of temp.cpp: nodes, pointers and references\<close>

text \<open>
  The source keeps the tree in heap-allocated nodes linked by raw pointers
  (\<^verbatim>\<open>typedef NodeImpl<Key,Value>* Node\<close>) and every operation that changes the tree
  receives \<^emph>\<open>references to pointers\<close> (\<^verbatim>\<open>Node &\<close>, \<^verbatim>\<open>Node const &\<close>) and assigns through them.
  Two reference parameters of one call may name the same pointer cell, as in
  \<^verbatim>\<open>split(treap->left, k, l, treap->left)\<close>, so the model keeps an explicit store:

  \<^item> an address is a natural number, the null pointer is \<open>None\<close>;
  \<^item> the heap maps every address to a node (the program never frees a node);
  \<^item> a pointer cell (what a \<^verbatim>\<open>Node &\<close> is bound to) is a location: a pointer variable of
    the caller (such as \<^verbatim>\<open>x\<close> in \<^verbatim>\<open>main\<close>), or the \<^verbatim>\<open>left\<close> or \<^verbatim>\<open>right\<close> field of a node.

  Keys are any linearly ordered type (the driver uses \<^verbatim>\<open>int\<close>); \<^verbatim>\<open>heap_key\<close> is a
  \<^verbatim>\<open>long\<close> that is only ever compared, so it is an \<open>int\<close>.
\<close>

type_synonym addr = nat

record ('k, 'v) NodeImpl =
  tree_key :: 'k
  payload :: 'v
  heap_key :: int
  left :: "addr option"
  right :: "addr option"

datatype loc = Var nat | LeftOf addr | RightOf addr

record ('k, 'v) state =
  vars :: "nat \<Rightarrow> addr option"
  heap :: "addr \<Rightarrow> ('k, 'v) NodeImpl"

text \<open>Reading the pointer stored in a cell, and assigning to a cell.\<close>

fun load :: "('k, 'v) state \<Rightarrow> loc \<Rightarrow> addr option" where
  "load s (Var x) = vars s x"
| "load s (LeftOf a) = left (heap s a)"
| "load s (RightOf a) = right (heap s a)"

fun store :: "loc \<Rightarrow> addr option \<Rightarrow> ('k, 'v) state \<Rightarrow> ('k, 'v) state" where
  "store (Var x) p s = s\<lparr>vars := (vars s)(x := p)\<rparr>"
| "store (LeftOf a) p s = s\<lparr>heap := (heap s)(a := (heap s a)\<lparr>left := p\<rparr>)\<rparr>"
| "store (RightOf a) p s = s\<lparr>heap := (heap s)(a := (heap s a)\<lparr>right := p\<rparr>)\<rparr>"

subsection \<open>The operations\<close>

text \<open>
  \<^verbatim>\<open>NodeImpl(Key const& k, Value const& v)\<close>: the node allocated at address \<open>a\<close>, with
  the value \<open>p\<close> that \<^verbatim>\<open>rand()\<close> returned and both children null.
\<close>

definition construct :: "addr \<Rightarrow> 'k \<Rightarrow> 'v \<Rightarrow> int \<Rightarrow> ('k, 'v) state \<Rightarrow> ('k, 'v) state" where
  "construct a k v p s =
     s\<lparr>heap := (heap s)(a := \<lparr>tree_key = k, payload = v, heap_key = p, left = None, right = None\<rparr>)\<rparr>"

text \<open>
  \<^verbatim>\<open>static bool exists(Node treap, Key const& k)\<close>: the pointer is passed by value.
  The recursion follows pointers, so on a cyclic heap it need not return: the result
  \<open>None\<close> is "does not return".
\<close>

partial_function (option) exists :: "addr option \<Rightarrow> 'k::linorder \<Rightarrow> ('k, 'v) state \<Rightarrow> bool option" where
  "exists treap k s =
     (case treap of
        None \<Rightarrow> Some False
      | Some t \<Rightarrow>
          if k = tree_key (heap s t) then Some True
          else exists (if k < tree_key (heap s t) then left (heap s t) else right (heap s t)) k s)"

text \<open>
  \<^verbatim>\<open>static void split(Node const& treap, Key const& k, Node & l, Node &r)\<close>.
  All three pointer parameters are references, so they are locations here; \<open>treap\<close> is
  read again \<^emph>\<open>after\<close> the recursive call (\<^verbatim>\<open>r = treap\<close>, \<^verbatim>\<open>l = treap\<close>), in the state that
  call left behind. \<^verbatim>\<open>treap->left\<close> is the \<^verbatim>\<open>left\<close> field of the node that \<open>treap\<close> points
  to when the call is made. \<^verbatim>\<open>l = r = NULL\<close> assigns \<open>r\<close> first and then \<open>l\<close> from \<open>r\<close>.
  The key \<open>k\<close> is a reference to a \<^verbatim>\<open>tree_key\<close> field, which nothing assigns to, so it
  is passed as a value.
\<close>

partial_function (option) split ::
    "loc \<Rightarrow> 'k::linorder \<Rightarrow> loc \<Rightarrow> loc \<Rightarrow> ('k, 'v) state \<Rightarrow> ('k, 'v) state option" where
  "split treap k l r s =
     (case load s treap of
        None \<Rightarrow> (let s1 = store r None s in Some (store l (load s1 r) s1))
      | Some t \<Rightarrow>
          if k < tree_key (heap s t) then
            Option.bind (split (LeftOf t) k l (LeftOf t) s)
              (\<lambda>s1. Some (store r (load s1 treap) s1))
          else
            Option.bind (split (RightOf t) k (RightOf t) r s)
              (\<lambda>s1. Some (store l (load s1 treap) s1)))"

text \<open>
  \<^verbatim>\<open>static void insert(Node & treap, Node new_node)\<close>: \<open>treap\<close> is a reference,
  \<open>new_node\<close> a pointer passed by value (never null: it comes from \<^verbatim>\<open>new\<close>).
\<close>

partial_function (option) insert_treap ::
    "loc \<Rightarrow> addr \<Rightarrow> ('k::linorder, 'v) state \<Rightarrow> ('k, 'v) state option" where
  "insert_treap treap new_node s =
     (case load s treap of
        None \<Rightarrow> Some (store treap (Some new_node) s)
      | Some t \<Rightarrow>
          if heap_key (heap s t) > heap_key (heap s new_node) then
            insert_treap
              (if tree_key (heap s new_node) < tree_key (heap s t) then LeftOf t else RightOf t)
              new_node s
          else
            Option.bind
              (split treap (tree_key (heap s new_node)) (LeftOf new_node) (RightOf new_node) s)
              (\<lambda>s1. Some (store treap (Some new_node) s1)))"

text \<open>
  \<^verbatim>\<open>static unsigned long height(Node const & treap)\<close>. The reference is only read, so
  \<open>treap\<close> is a location that is loaded once. The result counts the nodes on one path,
  which are distinct objects in memory; \<^verbatim>\<open>unsigned long\<close> cannot wrap before memory is
  exhausted, so the result is a \<open>nat\<close>.
\<close>

partial_function (option) height :: "loc \<Rightarrow> ('k, 'v) state \<Rightarrow> nat option" where
  "height treap s =
     (case load s treap of
        None \<Rightarrow> Some 0
      | Some t \<Rightarrow>
          Option.bind (height (LeftOf t) s) (\<lambda>lh.
          Option.bind (height (RightOf t) s) (\<lambda>rh.
            Some (1 + (if lh < rh then rh else lh)))))"

text \<open>The recursive equations are the code equations, so concrete calls can be evaluated.\<close>

declare exists.simps [code] split.simps [code] insert_treap.simps [code] height.simps [code]

text \<open>
  The read loop of \<^verbatim>\<open>main\<close>: \<^verbatim>\<open>Node * x = NULL; while (cin >> k >> v) insert(x, new Node(k,v))\<close>.
  The variable \<^verbatim>\<open>x\<close> is \<open>Var 0\<close>; each \<^verbatim>\<open>new\<close> takes the next unused address \<open>a\<close>; the
  input is the list of pairs read, each with the priority \<^verbatim>\<open>rand()\<close> returned for it.
\<close>

fun build :: "addr \<Rightarrow> ('k::linorder \<times> 'v \<times> int) list \<Rightarrow> ('k, 'v) state \<Rightarrow> ('k, 'v) state option" where
  "build a [] s = Some s"
| "build a ((k, v, p) # kvs) s =
     Option.bind (insert_treap (Var 0) a (construct a k v p s)) (build (a + 1) kvs)"

subsection \<open>The operations with a bound on the depth of calls\<close>

text \<open>
  To say how deep the recursion goes, the same four equations again with a counter:
  \<open>n\<close> is the number of nested calls still allowed, and a call with \<open>n = 0\<close> gives up
  (\<open>None\<close>). Everything else is as above. Lemmas \<open>split_n_sound\<close>, \<open>insert_n_sound\<close>,
  \<open>exists_n_sound\<close> and \<open>height_n_sound\<close> show that a bounded run that returns is a run of the
  operation itself.
\<close>

fun exists_n :: "nat \<Rightarrow> addr option \<Rightarrow> 'k::linorder \<Rightarrow> ('k, 'v) state \<Rightarrow> bool option" where
  "exists_n 0 treap k s = None"
| "exists_n (Suc n) treap k s =
     (case treap of
        None \<Rightarrow> Some False
      | Some t \<Rightarrow>
          if k = tree_key (heap s t) then Some True
          else exists_n n (if k < tree_key (heap s t) then left (heap s t) else right (heap s t)) k s)"

fun split_n ::
    "nat \<Rightarrow> loc \<Rightarrow> 'k::linorder \<Rightarrow> loc \<Rightarrow> loc \<Rightarrow> ('k, 'v) state \<Rightarrow> ('k, 'v) state option" where
  "split_n 0 treap k l r s = None"
| "split_n (Suc n) treap k l r s =
     (case load s treap of
        None \<Rightarrow> (let s1 = store r None s in Some (store l (load s1 r) s1))
      | Some t \<Rightarrow>
          if k < tree_key (heap s t) then
            Option.bind (split_n n (LeftOf t) k l (LeftOf t) s)
              (\<lambda>s1. Some (store r (load s1 treap) s1))
          else
            Option.bind (split_n n (RightOf t) k (RightOf t) r s)
              (\<lambda>s1. Some (store l (load s1 treap) s1)))"

fun insert_n :: "nat \<Rightarrow> loc \<Rightarrow> addr \<Rightarrow> ('k::linorder, 'v) state \<Rightarrow> ('k, 'v) state option" where
  "insert_n 0 treap new_node s = None"
| "insert_n (Suc n) treap new_node s =
     (case load s treap of
        None \<Rightarrow> Some (store treap (Some new_node) s)
      | Some t \<Rightarrow>
          if heap_key (heap s t) > heap_key (heap s new_node) then
            insert_n n
              (if tree_key (heap s new_node) < tree_key (heap s t) then LeftOf t else RightOf t)
              new_node s
          else
            Option.bind
              (split_n n treap (tree_key (heap s new_node)) (LeftOf new_node) (RightOf new_node) s)
              (\<lambda>s1. Some (store treap (Some new_node) s1)))"

fun height_n :: "nat \<Rightarrow> loc \<Rightarrow> ('k, 'v) state \<Rightarrow> nat option" where
  "height_n 0 treap s = None"
| "height_n (Suc n) treap s =
     (case load s treap of
        None \<Rightarrow> Some 0
      | Some t \<Rightarrow>
          Option.bind (height_n n (LeftOf t) s) (\<lambda>lh.
          Option.bind (height_n n (RightOf t) s) (\<lambda>rh.
            Some (1 + (if lh < rh then rh else lh)))))"

section \<open>The tree a pointer represents\<close>

text \<open>
  A claim speaks of "the tree": the shape reachable from a pointer. A shape lists the
  addresses of its nodes; \<open>tree_at s p t\<close> says that in state \<open>s\<close> the pointer \<open>p\<close> is the
  root of shape \<open>t\<close> (null for \<open>Leaf\<close>, and the children read from the node's fields).
  A shape is finite, so a pointer with a shape reaches no cycle; the nodes of a tree are
  pairwise distinct (\<open>distinct (addrs t)\<close>: no node is shared).
\<close>

datatype tree = Leaf | Node tree addr tree

fun addrs :: "tree \<Rightarrow> addr list" where
  "addrs Leaf = []"
| "addrs (Node l a r) = addrs l @ a # addrs r"

fun tree_at :: "('k, 'v) state \<Rightarrow> addr option \<Rightarrow> tree \<Rightarrow> bool" where
  "tree_at s p Leaf = (p = None)"
| "tree_at s p (Node l a r) =
     (p = Some a \<and> tree_at s (load s (LeftOf a)) l \<and> tree_at s (load s (RightOf a)) r)"

text \<open>The pointer cells inside a tree: the child fields of its nodes.\<close>

definition locs :: "tree \<Rightarrow> loc set" where
  "locs t = LeftOf ` set (addrs t) \<union> RightOf ` set (addrs t)"

definition key_of :: "('k, 'v) state \<Rightarrow> addr \<Rightarrow> 'k" where
  "key_of s a = tree_key (heap s a)"

definition prio_of :: "('k, 'v) state \<Rightarrow> addr \<Rightarrow> int" where
  "prio_of s a = heap_key (heap s a)"

text \<open>The part of a node that is not a link: key, value and priority.\<close>

definition fields :: "('k, 'v) state \<Rightarrow> addr \<Rightarrow> 'k \<times> 'v \<times> int" where
  "fields s a = (tree_key (heap s a), payload (heap s a), heap_key (heap s a))"

text \<open>
  The two invariants of the specification, for a key function \<open>K\<close> and a priority
  function \<open>P\<close> on addresses: keys in the left subtree are smaller and keys in the right
  subtree larger than the node's key; the priority of a child is at most its parent's.
\<close>

fun bst :: "(addr \<Rightarrow> 'k::linorder) \<Rightarrow> tree \<Rightarrow> bool" where
  "bst K Leaf = True"
| "bst K (Node l a r) =
     ((\<forall>b \<in> set (addrs l). K b < K a) \<and> (\<forall>b \<in> set (addrs r). K a < K b) \<and> bst K l \<and> bst K r)"

fun below :: "(addr \<Rightarrow> int) \<Rightarrow> tree \<Rightarrow> addr \<Rightarrow> bool" where
  "below P Leaf a = True"
| "below P (Node l b r) a = (P b \<le> P a)"

fun heap_inv :: "(addr \<Rightarrow> int) \<Rightarrow> tree \<Rightarrow> bool" where
  "heap_inv P Leaf = True"
| "heap_inv P (Node l a r) = (below P l a \<and> below P r a \<and> heap_inv P l \<and> heap_inv P r)"

text \<open>The number of nodes on a longest path from the root down, and those paths.\<close>

fun depth :: "tree \<Rightarrow> nat" where
  "depth Leaf = 0"
| "depth (Node l a r) = 1 + max (depth l) (depth r)"

fun paths :: "tree \<Rightarrow> addr list list" where
  "paths Leaf = [[]]"
| "paths (Node l a r) = map ((#) a) (paths l @ paths r)"

subsection \<open>What the pointer program computes, on shapes\<close>

text \<open>
  Tracing \<^verbatim>\<open>split\<close> through its reference parameters gives the following shapes
  (lemma \<open>split_effect\<close> below proves that they are what the code leaves behind).
  The first recursive call binds \<open>treap\<close> and one output parameter to the same child
  field. While the search keeps its direction this is harmless (\<^verbatim>\<open>r = treap\<close> assigns a
  cell to itself). At the first change of direction the inner call overwrites that
  field before \<^verbatim>\<open>l = treap\<close> (or \<^verbatim>\<open>r = treap\<close>) reads it, and the node and everything
  below it drop out of both results. So the right result is the input with its left
  spine cut at the first key not above the pivot (\<open>cutL\<close>), the left result is the input
  with its right spine cut at the first key above the pivot (\<open>cutR\<close>).
\<close>

fun cutL :: "(addr \<Rightarrow> 'k::linorder) \<Rightarrow> 'k \<Rightarrow> tree \<Rightarrow> tree" where
  "cutL K k Leaf = Leaf"
| "cutL K k (Node l a r) = (if k < K a then Node (cutL K k l) a r else Leaf)"

fun cutR :: "(addr \<Rightarrow> 'k::linorder) \<Rightarrow> 'k \<Rightarrow> tree \<Rightarrow> tree" where
  "cutR K k Leaf = Leaf"
| "cutR K k (Node l a r) = (if k < K a then Leaf else Node l a (cutR K k r))"

fun ins :: "(addr \<Rightarrow> 'k::linorder) \<Rightarrow> (addr \<Rightarrow> int) \<Rightarrow> addr \<Rightarrow> tree \<Rightarrow> tree" where
  "ins K P n Leaf = Node Leaf n Leaf"
| "ins K P n (Node l a r) =
     (if P a > P n then
        (if K n < K a then Node (ins K P n l) a r else Node l a (ins K P n r))
      else Node (cutR K (K n) (Node l a r)) n (cutL K (K n) (Node l a r)))"

text \<open>
  The state \<open>s'\<close> after \<open>split treap k l r\<close> on a tree \<open>t\<close>: cells outside the tree other
  than the two outputs are untouched, no key, value or priority changes, and the outputs
  hold the cut shapes (an output that is the same cell as \<open>treap\<close> makes the other one null).
\<close>

definition split_post ::
  "tree \<Rightarrow> loc \<Rightarrow> 'k::linorder \<Rightarrow> loc \<Rightarrow> loc \<Rightarrow> ('k, 'v) state \<Rightarrow> ('k, 'v) state \<Rightarrow> bool" where
  "split_post t treap k l r s s' =
     ((\<forall>x. x \<notin> locs t \<and> x \<noteq> l \<and> x \<noteq> r \<longrightarrow> load s' x = load s x) \<and>
      fields s' = fields s \<and>
      tree_at s' (load s' l) (if treap = r then Leaf else cutR (key_of s) k t) \<and>
      tree_at s' (load s' r) (if treap = l then Leaf else cutL (key_of s) k t))"

definition insert_post ::
  "tree \<Rightarrow> loc \<Rightarrow> addr \<Rightarrow> ('k::linorder, 'v) state \<Rightarrow> ('k, 'v) state \<Rightarrow> bool" where
  "insert_post t treap n s s' =
     ((\<forall>x. x \<notin> locs t \<and> x \<noteq> treap \<and> x \<noteq> LeftOf n \<and> x \<noteq> RightOf n \<longrightarrow> load s' x = load s x) \<and>
      fields s' = fields s \<and>
      tree_at s' (load s' treap) (ins (key_of s) (prio_of s) n t))"

text \<open>The same state with every priority replaced: node \<open>a\<close> gets priority \<open>f a\<close>.\<close>

definition set_prio :: "(addr \<Rightarrow> int) \<Rightarrow> ('k, 'v) state \<Rightarrow> ('k, 'v) state" where
  "set_prio f s = s\<lparr>heap := (\<lambda>a. (heap s a)\<lparr>heap_key := f a\<rparr>)\<rparr>"

subsection \<open>Concrete states\<close>

text \<open>
  The state in which \<^verbatim>\<open>main\<close> starts (\<^verbatim>\<open>x\<close> is null), and the state after it has read the
  pairs \<open>(10, 0)\<close> and \<open>(5, 0)\<close> with \<^verbatim>\<open>rand()\<close> returning 2 and then 1: node 1 holds key 10
  and is the root, node 2 holds key 5 and is its left child.
\<close>

definition init_state :: "(int, int) state" where
  "init_state =
     \<lparr>vars = (\<lambda>_. None),
      heap = (\<lambda>_. \<lparr>tree_key = 0, payload = 0, heap_key = 0, left = None, right = None\<rparr>)\<rparr>"

definition two_nodes :: "(int, int) state" where
  "two_nodes =
     store (LeftOf 1) (Some 2)
       (construct 2 5 0 1 (store (Var 0) (Some 1) (construct 1 10 0 2 init_state)))"

text \<open>The keys of a shape, in order.\<close>

definition keys :: "('k, 'v) state \<Rightarrow> tree \<Rightarrow> 'k list" where
  "keys s t = map (key_of s) (addrs t)"

section \<open>Lemmas\<close>

subsection \<open>Cells, frames and the effect of split\<close>

lemma load_store [simp]: "load (store x p s) y = (if y = x then p else load s y)"
  by (cases x; cases y) auto

lemma fields_store [simp]: "fields (store x p s) = fields s"
  by (cases x) (auto simp: fields_def fun_eq_iff)

lemma key_of_fields: "key_of s = fst \<circ> fields s"
  by (auto simp: key_of_def fields_def fun_eq_iff)

lemma prio_of_fields: "prio_of s = snd \<circ> snd \<circ> fields s"
  by (auto simp: prio_of_def fields_def fun_eq_iff)

declare load.simps [simp del] store.simps [simp del]

lemma tree_at_frame:
  "(\<And>x. x \<in> locs t \<Longrightarrow> load s' x = load s x) \<Longrightarrow> tree_at s' p t = tree_at s p t"
proof (induction t arbitrary: p)
  case Leaf
  show ?case by simp
next
  case (Node l a r)
  have "tree_at s' q l = tree_at s q l" for q
    using Node.prems by (intro Node.IH(1)) (auto simp: locs_def)
  moreover have "tree_at s' q r = tree_at s q r" for q
    using Node.prems by (intro Node.IH(2)) (auto simp: locs_def)
  moreover have "load s' (LeftOf a) = load s (LeftOf a)" "load s' (RightOf a) = load s (RightOf a)"
    using Node.prems by (auto simp: locs_def)
  ultimately show ?case by simp
qed

lemma tree_at_store: "x \<notin> locs t \<Longrightarrow> tree_at (store x p s) q t = tree_at s q t"
  by (rule tree_at_frame) auto

lemma set_addrs_cutL: "set (addrs (cutL K k t)) \<subseteq> set (addrs t)"
  by (induction t) auto

lemma set_addrs_cutR: "set (addrs (cutR K k t)) \<subseteq> set (addrs t)"
  by (induction t) auto

lemma locs_cutL: "locs (cutL K k t) \<subseteq> locs t"
  using set_addrs_cutL [of K k t] by (auto simp: locs_def)

lemma locs_cutR: "locs (cutR K k t) \<subseteq> locs t"
  using set_addrs_cutR [of K k t] by (auto simp: locs_def)

lemma locs_Node: "locs (Node l a r) = insert (LeftOf a) (insert (RightOf a) (locs l \<union> locs r))"
  by (auto simp: locs_def)

lemma locs_Leaf [simp]: "locs Leaf = {}"
  by (simp add: locs_def)

lemma split_Null:
  "load s treap = None \<Longrightarrow> split treap k l r s = Some (store l None (store r None s))"
  by (subst split.simps) simp

lemma split_left:
  "load s treap = Some a \<Longrightarrow> k < key_of s a \<Longrightarrow>
   split treap k l r s =
     Option.bind (split (LeftOf a) k l (LeftOf a) s) (\<lambda>s1. Some (store r (load s1 treap) s1))"
  by (subst split.simps) (simp add: key_of_def)

lemma split_right:
  "load s treap = Some a \<Longrightarrow> \<not> k < key_of s a \<Longrightarrow>
   split treap k l r s =
     Option.bind (split (RightOf a) k (RightOf a) r s) (\<lambda>s1. Some (store l (load s1 treap) s1))"
  by (subst split.simps) (simp add: key_of_def)

lemma split_effect:
  assumes "tree_at s (load s treap) t" "distinct (addrs t)"
      and "treap \<notin> locs t" "l \<notin> locs t" "r \<notin> locs t" "l \<noteq> r"
  shows "\<exists>s'. split treap k l r s = Some s' \<and> split_post t treap k l r s s'"
  using assms
proof (induction t arbitrary: treap l r)
  case Leaf
  then have "load s treap = None" by simp
  then show ?case
    by (simp add: split_Null split_post_def)
next
  case (Node t1 a t2)
  have root: "load s treap = Some a"
    and t1: "tree_at s (load s (LeftOf a)) t1" and t2: "tree_at s (load s (RightOf a)) t2"
    using Node.prems(1) by simp_all
  have d1: "distinct (addrs t1)" and d2: "distinct (addrs t2)"
    and a1: "a \<notin> set (addrs t1)" and a2: "a \<notin> set (addrs t2)"
    and dj: "set (addrs t1) \<inter> set (addrs t2) = {}"
    using Node.prems(2) by auto
  have La1: "LeftOf a \<notin> locs t1" and Ra1: "RightOf a \<notin> locs t1"
    and La2: "LeftOf a \<notin> locs t2" and Ra2: "RightOf a \<notin> locs t2"
    using a1 a2 by (auto simp: locs_def)
  have dl: "locs t1 \<inter> locs t2 = {}"
    using dj by (auto simp: locs_def)
  have out: "treap \<notin> locs t1" "treap \<notin> locs t2" "treap \<noteq> LeftOf a" "treap \<noteq> RightOf a"
    "l \<notin> locs t1" "l \<notin> locs t2" "l \<noteq> LeftOf a" "l \<noteq> RightOf a"
    "r \<notin> locs t1" "r \<notin> locs t2" "r \<noteq> LeftOf a" "r \<noteq> RightOf a"
    using Node.prems(3-5) by (auto simp: locs_Node)
  show ?case
  proof (cases "k < key_of s a")
    case True
    from Node.IH(1) [OF t1 d1 La1 out(5) La1 out(7)]
    obtain s1 where run: "split (LeftOf a) k l (LeftOf a) s = Some s1"
      and post: "split_post t1 (LeftOf a) k l (LeftOf a) s s1"
      by blast
    from post have fr: "\<And>x. x \<notin> locs t1 \<Longrightarrow> x \<noteq> l \<Longrightarrow> x \<noteq> LeftOf a \<Longrightarrow> load s1 x = load s x"
      and fl: "fields s1 = fields s"
      and l1: "load s1 l = None"
      and r1: "tree_at s1 (load s1 (LeftOf a)) (cutL (key_of s) k t1)"
      using out(7) by (auto simp: split_post_def)
    let ?s2 = "store r (load s1 treap) s1"
    have res: "split treap k l r s = Some ?s2"
      by (simp add: split_left [OF root True] run)
    have frame2: "\<forall>x. x \<notin> locs (Node t1 a t2) \<and> x \<noteq> l \<and> x \<noteq> r \<longrightarrow> load ?s2 x = load s x"
      using fr by (auto simp: locs_Node)
    have t2': "tree_at s1 (load s (RightOf a)) t2"
    proof -
      have "tree_at s1 (load s (RightOf a)) t2 = tree_at s (load s (RightOf a)) t2"
        using dl out(6) La2 by (intro tree_at_frame fr) auto
      with t2 show ?thesis by simp
    qed
    have Ra: "load s1 (RightOf a) = load s (RightOf a)"
      using fr [of "RightOf a"] Ra1 out(8) by simp
    show ?thesis
    proof (cases "treap = l")
      case True
      then have "load s1 treap = None" using l1 by simp
      then have "split_post (Node t1 a t2) treap k l r s ?s2"
        using frame2 fl True \<open>l \<noteq> r\<close> \<open>k < key_of s a\<close> l1
        by (simp add: split_post_def)
      with res show ?thesis by blast
    next
      case False
      then have lt: "load s1 treap = Some a"
        using fr [of treap] out(1,3) root by simp
      have "r \<notin> locs (cutL (key_of s) k t1)"
        using out(9) locs_cutL [of "key_of s" k t1] by auto
      then have "tree_at ?s2 (load ?s2 (LeftOf a)) (cutL (key_of s) k t1)
            = tree_at s1 (load s1 (LeftOf a)) (cutL (key_of s) k t1)"
        using out(11) by (auto simp: tree_at_store)
      moreover have "tree_at ?s2 (load ?s2 (RightOf a)) t2 = tree_at s1 (load s (RightOf a)) t2"
        using out(10,12) Ra by (auto simp: tree_at_store)
      ultimately have "tree_at ?s2 (Some a) (cutL (key_of s) k (Node t1 a t2))"
        using r1 t2' True by simp
      then have "split_post (Node t1 a t2) treap k l r s ?s2"
        using frame2 fl False \<open>l \<noteq> r\<close> \<open>k < key_of s a\<close> l1 lt
        by (simp add: split_post_def)
      with res show ?thesis by blast
    qed
  next
    case False
    from Node.IH(2) [OF t2 d2 Ra2 Ra2 out(10) out(12) [symmetric]]
    obtain s1 where run: "split (RightOf a) k (RightOf a) r s = Some s1"
      and post: "split_post t2 (RightOf a) k (RightOf a) r s s1"
      by blast
    from post have fr: "\<And>x. x \<notin> locs t2 \<Longrightarrow> x \<noteq> r \<Longrightarrow> x \<noteq> RightOf a \<Longrightarrow> load s1 x = load s x"
      and fl: "fields s1 = fields s"
      and r1: "load s1 r = None"
      and l1: "tree_at s1 (load s1 (RightOf a)) (cutR (key_of s) k t2)"
      using out(12) by (auto simp: split_post_def)
    let ?s2 = "store l (load s1 treap) s1"
    have res: "split treap k l r s = Some ?s2"
      by (simp add: split_right [OF root False] run)
    have frame2: "\<forall>x. x \<notin> locs (Node t1 a t2) \<and> x \<noteq> l \<and> x \<noteq> r \<longrightarrow> load ?s2 x = load s x"
      using fr by (auto simp: locs_Node)
    have t1': "tree_at s1 (load s (LeftOf a)) t1"
    proof -
      have "tree_at s1 (load s (LeftOf a)) t1 = tree_at s (load s (LeftOf a)) t1"
        using dl out(9) Ra1 by (intro tree_at_frame fr) auto
      with t1 show ?thesis by simp
    qed
    have La: "load s1 (LeftOf a) = load s (LeftOf a)"
      using fr [of "LeftOf a"] La2 out(11) by simp
    show ?thesis
    proof (cases "treap = r")
      case True
      then have "load s1 treap = None" using r1 by simp
      then have "split_post (Node t1 a t2) treap k l r s ?s2"
        using frame2 fl True \<open>l \<noteq> r\<close> \<open>\<not> k < key_of s a\<close> r1
        by (simp add: split_post_def)
      with res show ?thesis by blast
    next
      case neq: False
      then have lt: "load s1 treap = Some a"
        using fr [of treap] out(2,4) root by simp
      have "l \<notin> locs (cutR (key_of s) k t2)"
        using out(6) locs_cutR [of "key_of s" k t2] by auto
      then have "tree_at ?s2 (load ?s2 (RightOf a)) (cutR (key_of s) k t2)
            = tree_at s1 (load s1 (RightOf a)) (cutR (key_of s) k t2)"
        using out(8) by (auto simp: tree_at_store)
      moreover have "tree_at ?s2 (load ?s2 (LeftOf a)) t1 = tree_at s1 (load s (LeftOf a)) t1"
        using out(5,7) La by (auto simp: tree_at_store)
      ultimately have "tree_at ?s2 (Some a) (cutR (key_of s) k (Node t1 a t2))"
        using l1 t1' False by simp
      then have "split_post (Node t1 a t2) treap k l r s ?s2"
        using frame2 fl neq \<open>l \<noteq> r\<close> \<open>\<not> k < key_of s a\<close> r1 lt
        by (simp add: split_post_def)
      with res show ?thesis by blast
    qed
  qed
qed

subsection \<open>The effect of insert\<close>

lemma insert_Null:
  "load s treap = None \<Longrightarrow> insert_treap treap n s = Some (store treap (Some n) s)"
  by (subst insert_treap.simps) simp

lemma insert_down:
  "load s treap = Some a \<Longrightarrow> prio_of s a > prio_of s n \<Longrightarrow>
   insert_treap treap n s =
     insert_treap (if key_of s n < key_of s a then LeftOf a else RightOf a) n s"
  by (subst insert_treap.simps) (simp add: key_of_def prio_of_def)

lemma insert_here:
  "load s treap = Some a \<Longrightarrow> \<not> prio_of s a > prio_of s n \<Longrightarrow>
   insert_treap treap n s =
     Option.bind (split treap (key_of s n) (LeftOf n) (RightOf n) s)
       (\<lambda>s1. Some (store treap (Some n) s1))"
  by (subst insert_treap.simps) (simp add: key_of_def prio_of_def)

lemma insert_effect:
  assumes "tree_at s (load s treap) t" "distinct (addrs t)"
      and "treap \<notin> locs t" "n \<notin> set (addrs t)" "treap \<noteq> LeftOf n" "treap \<noteq> RightOf n"
      and "load s (LeftOf n) = None" "load s (RightOf n) = None"
  shows "\<exists>s'. insert_treap treap n s = Some s' \<and> insert_post t treap n s s'"
  using assms
proof (induction t arbitrary: treap)
  case Leaf
  then have "load s treap = None" by simp
  then show ?case
    using Leaf.prems by (simp add: insert_Null insert_post_def)
next
  case (Node t1 a t2)
  let ?t = "Node t1 a t2"
  let ?K = "key_of s" and ?P = "prio_of s"
  have root: "load s treap = Some a"
    and t1: "tree_at s (load s (LeftOf a)) t1" and t2: "tree_at s (load s (RightOf a)) t2"
    using Node.prems(1) by simp_all
  have d1: "distinct (addrs t1)" and d2: "distinct (addrs t2)"
    and a1: "a \<notin> set (addrs t1)" and a2: "a \<notin> set (addrs t2)"
    and dj: "set (addrs t1) \<inter> set (addrs t2) = {}"
    using Node.prems(2) by auto
  have na: "n \<noteq> a" and n1: "n \<notin> set (addrs t1)" and n2: "n \<notin> set (addrs t2)"
    using Node.prems(4) by auto
  have La1: "LeftOf a \<notin> locs t1" and Ra1: "RightOf a \<notin> locs t1"
    and La2: "LeftOf a \<notin> locs t2" and Ra2: "RightOf a \<notin> locs t2"
    using a1 a2 by (auto simp: locs_def)
  have dl: "locs t1 \<inter> locs t2 = {}"
    using dj by (auto simp: locs_def)
  have nl: "LeftOf n \<notin> locs ?t" "RightOf n \<notin> locs ?t"
    using Node.prems(4) by (auto simp: locs_def)
  have out: "treap \<notin> locs t1" "treap \<notin> locs t2" "treap \<noteq> LeftOf a" "treap \<noteq> RightOf a"
    using Node.prems(3) by (auto simp: locs_Node)
  show ?case
  proof (cases "?P a > ?P n")
    case down: True
    show ?thesis
    proof (cases "?K n < ?K a")
      case True
      have "\<exists>s'. insert_treap (LeftOf a) n s = Some s' \<and> insert_post t1 (LeftOf a) n s s'"
        using t1 d1 La1 n1 na Node.prems(7,8) by (intro Node.IH(1)) auto
      then obtain s' where run: "insert_treap (LeftOf a) n s = Some s'"
        and post: "insert_post t1 (LeftOf a) n s s'" by blast
      from post have fr: "\<And>x. x \<notin> locs t1 \<Longrightarrow> x \<noteq> LeftOf a \<Longrightarrow> x \<noteq> LeftOf n \<Longrightarrow> x \<noteq> RightOf n
            \<Longrightarrow> load s' x = load s x"
        and fl: "fields s' = fields s"
        and sub: "tree_at s' (load s' (LeftOf a)) (ins ?K ?P n t1)"
        by (auto simp: insert_post_def)
      have res: "insert_treap treap n s = Some s'"
        using insert_down [OF root down] True run by simp
      have "load s' treap = Some a"
        using fr [of treap] out Node.prems(5,6) root by simp
      moreover have "load s' (RightOf a) = load s (RightOf a)"
        using fr [of "RightOf a"] Ra1 na by simp
      moreover have "tree_at s' q t2 = tree_at s q t2" for q
        using dl La2 nl by (intro tree_at_frame fr) (auto simp: locs_Node)
      ultimately have "tree_at s' (load s' treap) (ins ?K ?P n ?t)"
        using sub t2 down True by simp
      moreover have "\<forall>x. x \<notin> locs ?t \<and> x \<noteq> treap \<and> x \<noteq> LeftOf n \<and> x \<noteq> RightOf n \<longrightarrow> load s' x = load s x"
        using fr by (auto simp: locs_Node)
      ultimately have "insert_post ?t treap n s s'"
        using fl by (simp add: insert_post_def)
      with res show ?thesis by blast
    next
      case False
      have "\<exists>s'. insert_treap (RightOf a) n s = Some s' \<and> insert_post t2 (RightOf a) n s s'"
        using t2 d2 Ra2 n2 na Node.prems(7,8) by (intro Node.IH(2)) auto
      then obtain s' where run: "insert_treap (RightOf a) n s = Some s'"
        and post: "insert_post t2 (RightOf a) n s s'" by blast
      from post have fr: "\<And>x. x \<notin> locs t2 \<Longrightarrow> x \<noteq> RightOf a \<Longrightarrow> x \<noteq> LeftOf n \<Longrightarrow> x \<noteq> RightOf n
            \<Longrightarrow> load s' x = load s x"
        and fl: "fields s' = fields s"
        and sub: "tree_at s' (load s' (RightOf a)) (ins ?K ?P n t2)"
        by (auto simp: insert_post_def)
      have res: "insert_treap treap n s = Some s'"
        using insert_down [OF root down] False run by simp
      have "load s' treap = Some a"
        using fr [of treap] out Node.prems(5,6) root by simp
      moreover have "load s' (LeftOf a) = load s (LeftOf a)"
        using fr [of "LeftOf a"] La2 na by simp
      moreover have "tree_at s' q t1 = tree_at s q t1" for q
        using dl Ra1 nl by (intro tree_at_frame fr) (auto simp: locs_Node)
      ultimately have "tree_at s' (load s' treap) (ins ?K ?P n ?t)"
        using sub t1 down False by simp
      moreover have "\<forall>x. x \<notin> locs ?t \<and> x \<noteq> treap \<and> x \<noteq> LeftOf n \<and> x \<noteq> RightOf n \<longrightarrow> load s' x = load s x"
        using fr by (auto simp: locs_Node)
      ultimately have "insert_post ?t treap n s s'"
        using fl by (simp add: insert_post_def)
      with res show ?thesis by blast
    qed
  next
    case here: False
    have "\<exists>s1. split treap (?K n) (LeftOf n) (RightOf n) s = Some s1
            \<and> split_post ?t treap (?K n) (LeftOf n) (RightOf n) s s1"
      using Node.prems(1,2,3) nl by (intro split_effect) auto
    then obtain s1 where run: "split treap (?K n) (LeftOf n) (RightOf n) s = Some s1"
      and post: "split_post ?t treap (?K n) (LeftOf n) (RightOf n) s s1" by blast
    from post have fr: "\<And>x. x \<notin> locs ?t \<Longrightarrow> x \<noteq> LeftOf n \<Longrightarrow> x \<noteq> RightOf n \<Longrightarrow> load s1 x = load s x"
      and fl: "fields s1 = fields s"
      and L: "tree_at s1 (load s1 (LeftOf n)) (cutR ?K (?K n) ?t)"
      and R: "tree_at s1 (load s1 (RightOf n)) (cutL ?K (?K n) ?t)"
      using Node.prems(5,6) by (auto simp: split_post_def)
    let ?s2 = "store treap (Some n) s1"
    have res: "insert_treap treap n s = Some ?s2"
      using insert_here [OF root here] run by simp
    have "treap \<notin> locs (cutR ?K (?K n) ?t)" "treap \<notin> locs (cutL ?K (?K n) ?t)"
      using Node.prems(3) locs_cutR [of ?K "?K n" ?t] locs_cutL [of ?K "?K n" ?t] by auto
    then have "tree_at ?s2 (load ?s2 (LeftOf n)) (cutR ?K (?K n) ?t)"
      "tree_at ?s2 (load ?s2 (RightOf n)) (cutL ?K (?K n) ?t)"
      using L R Node.prems(5,6) by (auto simp: tree_at_store)
    then have "tree_at ?s2 (load ?s2 treap) (ins ?K ?P n ?t)"
      using here by simp
    moreover have "\<forall>x. x \<notin> locs ?t \<and> x \<noteq> treap \<and> x \<noteq> LeftOf n \<and> x \<noteq> RightOf n \<longrightarrow> load ?s2 x = load s x"
      using fr by auto
    ultimately have "insert_post ?t treap n s ?s2"
      using fl by (simp add: insert_post_def)
    with res show ?thesis by blast
  qed
qed

subsection \<open>Invariants on shapes\<close>

lemma set_addrs_ins: "set (addrs (ins K P n t)) \<subseteq> insert n (set (addrs t))"
proof (induction t)
  case Leaf
  show ?case by simp
next
  case (Node l a r)
  let ?t = "Node l a r"
  have "set (addrs (Node (cutR K (K n) ?t) n (cutL K (K n) ?t))) \<subseteq> insert n (set (addrs ?t))"
    using set_addrs_cutL [of K "K n" ?t] set_addrs_cutR [of K "K n" ?t]
    by (auto simp del: cutL.simps cutR.simps)
  then show ?case
    using Node.IH by (auto simp del: cutL.simps cutR.simps)
qed

lemma distinct_cutL: "distinct (addrs t) \<Longrightarrow> distinct (addrs (cutL K k t))"
  using set_addrs_cutL [of K k] by (induction t) auto

lemma distinct_cutR: "distinct (addrs t) \<Longrightarrow> distinct (addrs (cutR K k t))"
  using set_addrs_cutR [of K k] by (induction t) auto

lemma cut_one_side: "cutL K k t = Leaf \<or> cutR K k t = Leaf"
  by (cases t) auto

lemma distinct_ins:
  "distinct (addrs t) \<Longrightarrow> n \<notin> set (addrs t) \<Longrightarrow> distinct (addrs (ins K P n t))"
proof (induction t)
  case Leaf
  show ?case by simp
next
  case (Node l a r)
  show ?case
  proof (cases "P a > P n")
    case True
    then show ?thesis
      using Node set_addrs_ins [of K P n l] set_addrs_ins [of K P n r] by auto
  next
    case False
    let ?t = "Node l a r"
    have "distinct (addrs (cutL K (K n) ?t))" "distinct (addrs (cutR K (K n) ?t))"
      using Node.prems(1) by (rule distinct_cutL, rule distinct_cutR)
    moreover have "n \<notin> set (addrs (cutL K (K n) ?t))" "n \<notin> set (addrs (cutR K (K n) ?t))"
      using Node.prems(2) set_addrs_cutL [of K "K n" ?t] set_addrs_cutR [of K "K n" ?t] by auto
    moreover have "set (addrs (cutR K (K n) ?t)) \<inter> set (addrs (cutL K (K n) ?t)) = {}"
      using cut_one_side [of K "K n" ?t] by auto
    ultimately have "distinct (addrs (Node (cutR K (K n) ?t) n (cutL K (K n) ?t)))"
      by (simp del: cutL.simps cutR.simps)
    with False show ?thesis by (simp del: cutL.simps cutR.simps)
  qed
qed

lemma bst_cutL: "bst K t \<Longrightarrow> bst K (cutL K k t)"
  using set_addrs_cutL [of K k] by (induction t) auto

lemma bst_cutR: "bst K t \<Longrightarrow> bst K (cutR K k t)"
  using set_addrs_cutR [of K k] by (induction t) auto

lemma keys_cutL: "bst K t \<Longrightarrow> b \<in> set (addrs (cutL K k t)) \<Longrightarrow> k < K b"
  by (induction t) (auto split: if_splits)

lemma keys_cutR: "bst K t \<Longrightarrow> b \<in> set (addrs (cutR K k t)) \<Longrightarrow> K b \<le> k"
  by (induction t) (force split: if_splits)+

lemma bst_ins:
  "bst K t \<Longrightarrow> K n \<notin> K ` set (addrs t) \<Longrightarrow> bst K (ins K P n t)"
proof (induction t)
  case Leaf
  show ?case by simp
next
  case (Node l a r)
  show ?case
  proof (cases "P a > P n")
    case True
    have "K n \<noteq> K a" using Node.prems(2) by auto
    then show ?thesis
      using True Node set_addrs_ins [of K P n l] set_addrs_ins [of K P n r]
      by (auto simp: image_iff)
  next
    case False
    let ?t = "Node l a r"
    have "bst K (cutL K (K n) ?t)" "bst K (cutR K (K n) ?t)"
      using Node.prems(1) by (rule bst_cutL, rule bst_cutR)
    moreover have "\<forall>b \<in> set (addrs (cutL K (K n) ?t)). K n < K b"
      using keys_cutL [OF Node.prems(1)] by blast
    moreover have "\<forall>b \<in> set (addrs (cutR K (K n) ?t)). K b < K n"
    proof
      fix b assume b: "b \<in> set (addrs (cutR K (K n) ?t))"
      then have "K b \<le> K n" by (rule keys_cutR [OF Node.prems(1)])
      moreover have "b \<in> set (addrs ?t)" using b set_addrs_cutR [of K "K n" ?t] by blast
      then have "K b \<noteq> K n" using Node.prems(2) by (metis image_eqI)
      ultimately show "K b < K n" by simp
    qed
    ultimately have "bst K (Node (cutR K (K n) ?t) n (cutL K (K n) ?t))"
      by (simp del: cutL.simps cutR.simps)
    with False show ?thesis by (simp del: cutL.simps cutR.simps)
  qed
qed

lemma below_cutL: "below P t a \<Longrightarrow> below P (cutL K k t) a"
  by (cases t) auto

lemma below_cutR: "below P t a \<Longrightarrow> below P (cutR K k t) a"
  by (cases t) auto

lemma heap_inv_cutL: "heap_inv P t \<Longrightarrow> heap_inv P (cutL K k t)"
  by (induction t) (auto simp: below_cutL)

lemma heap_inv_cutR: "heap_inv P t \<Longrightarrow> heap_inv P (cutR K k t)"
  by (induction t) (auto simp: below_cutR)

lemma below_ins: "below P t a \<Longrightarrow> P n \<le> P a \<Longrightarrow> below P (ins K P n t) a"
  by (cases t) auto

lemma heap_inv_ins: "heap_inv P t \<Longrightarrow> heap_inv P (ins K P n t)"
proof (induction t)
  case Leaf
  show ?case by simp
next
  case (Node l a r)
  show ?case
  proof (cases "P a > P n")
    case True
    then show ?thesis using Node by (auto simp: below_ins)
  next
    case False
    let ?t = "Node l a r"
    have "heap_inv P (cutL K (K n) ?t)" "heap_inv P (cutR K (K n) ?t)"
      using Node.prems by (rule heap_inv_cutL, rule heap_inv_cutR)
    moreover have "below P ?t n" using False by simp
    then have "below P (cutL K (K n) ?t) n" "below P (cutR K (K n) ?t) n"
      by (rule below_cutL, rule below_cutR)
    ultimately have "heap_inv P (Node (cutR K (K n) ?t) n (cutL K (K n) ?t))"
      by (simp del: cutL.simps cutR.simps)
    with False show ?thesis by (simp del: cutL.simps cutR.simps)
  qed
qed

lemma depth_cutL: "depth (cutL K k t) \<le> depth t"
  by (induction t) auto

lemma depth_cutR: "depth (cutR K k t) \<le> depth t"
  by (induction t) auto

lemma depth_ins_le: "depth (ins K P n t) \<le> depth t + 1"
proof (induction t)
  case Leaf
  show ?case by simp
next
  case (Node l a r)
  let ?t = "Node l a r"
  have "depth (cutL K (K n) ?t) \<le> depth ?t" "depth (cutR K (K n) ?t) \<le> depth ?t"
    by (rule depth_cutL, rule depth_cutR)
  then have "depth (Node (cutR K (K n) ?t) n (cutL K (K n) ?t)) \<le> depth ?t + 1"
    by (simp del: cutL.simps cutR.simps)
  then show ?case using Node.IH by (auto simp del: cutL.simps cutR.simps)
qed

lemma depth_ins_ge: "1 \<le> depth (ins K P n t)"
  by (cases t) auto

lemma bst_cong: "(\<And>b. b \<in> set (addrs t) \<Longrightarrow> K' b = K b) \<Longrightarrow> bst K' t = bst K t"
  by (induction t) auto

lemma heap_inv_cong: "(\<And>b. b \<in> set (addrs t) \<Longrightarrow> P' b = P b) \<Longrightarrow> heap_inv P' t = heap_inv P t"
proof (induction t)
  case Leaf
  show ?case by simp
next
  case (Node l a r)
  have "below P' l a = below P l a"
    using Node.prems by (cases l) auto
  moreover have "below P' r a = below P r a"
    using Node.prems by (cases r) auto
  moreover have "heap_inv P' l = heap_inv P l" "heap_inv P' r = heap_inv P r"
    using Node by auto
  ultimately show ?case by simp
qed

subsection \<open>Height, search, termination and priorities\<close>

lemma height_Null: "load s x = None \<Longrightarrow> height x s = Some 0"
  by (subst height.simps) simp

lemma height_Node:
  "load s x = Some a \<Longrightarrow>
   height x s = Option.bind (height (LeftOf a) s) (\<lambda>lh.
                Option.bind (height (RightOf a) s) (\<lambda>rh. Some (1 + max lh rh)))"
proof -
  have "(if lh < rh then rh else lh) = max lh rh" for lh rh :: nat
    by (simp add: max_def)
  then show ?thesis if "load s x = Some a"
    using that by (subst height.simps) simp
qed

lemma height_tree_at: "tree_at s (load s x) t \<Longrightarrow> height x s = Some (depth t)"
proof (induction t arbitrary: x)
  case Leaf
  then show ?case by (simp add: height_Null)
next
  case (Node l a r)
  then have "load s x = Some a" "height (LeftOf a) s = Some (depth l)"
    "height (RightOf a) s = Some (depth r)" by auto
  then show ?case by (simp add: height_Node)
qed

lemma paths_nonempty: "paths t \<noteq> []"
  by (induction t) simp_all

lemma depth_paths: "depth t = Max (set (map length (paths t)))"
proof (induction t)
  case Leaf
  show ?case by simp
next
  case (Node l a r)
  let ?A = "length ` set (paths l)" and ?B = "length ` set (paths r)"
  have fin: "finite ?A" "finite ?B" by simp_all
  have ne: "?A \<noteq> {}" "?B \<noteq> {}" using paths_nonempty by simp_all
  have "set (map length (paths (Node l a r))) = Suc ` (?A \<union> ?B)"
    by (simp add: image_Un image_image)
  also have "Max \<dots> = Suc (Max (?A \<union> ?B))"
    using fin ne by (intro mono_Max_commute [symmetric] mono_Suc) simp_all
  also have "Max (?A \<union> ?B) = max (Max ?A) (Max ?B)"
    using fin ne by (simp add: Max_Un)
  finally show ?case using Node.IH by simp
qed

lemma exists_Null: "exists None k s = Some False"
  by (subst exists.simps) simp

lemma exists_Node:
  "exists (Some a) k s =
     (if k = key_of s a then Some True
      else exists (if k < key_of s a then load s (LeftOf a) else load s (RightOf a)) k s)"
  by (subst exists.simps) (simp add: key_of_def load.simps)

lemma exists_bst:
  "tree_at s p t \<Longrightarrow> bst (key_of s) t \<Longrightarrow> exists p k s = Some (k \<in> key_of s ` set (addrs t))"
proof (induction t arbitrary: p)
  case Leaf
  then show ?case by (simp add: exists_Null)
next
  case (Node l a r)
  then have p: "p = Some a" by simp
  show ?case
  proof (cases "k = key_of s a")
    case True
    then show ?thesis by (simp add: p exists_Node)
  next
    case False
    show ?thesis
    proof (cases "k < key_of s a")
      case True
      then have "exists p k s = Some (k \<in> key_of s ` set (addrs l))"
        using Node False by (simp add: p exists_Node)
      moreover have "k \<notin> key_of s ` set (addrs r)"
        using Node.prems(2) True by auto
      ultimately show ?thesis using False by auto
    next
      case ge: False
      then have "exists p k s = Some (k \<in> key_of s ` set (addrs r))"
        using Node False by (simp add: p exists_Node)
      moreover have "k \<notin> key_of s ` set (addrs l)"
        using Node.prems(2) ge by auto
      ultimately show ?thesis using False by auto
    qed
  qed
qed

lemma exists_terminates: "tree_at s p t \<Longrightarrow> \<exists>b. exists p k s = Some b"
proof (induction t arbitrary: p)
  case Leaf
  then show ?case by (auto simp: exists_Null)
next
  case (Node l a r)
  then show ?case by (auto simp: exists_Node)
qed

lemma split_terminates: "tree_at s (load s treap) t \<Longrightarrow> \<exists>s'. split treap k l r s = Some s'"
proof (induction t arbitrary: treap l r)
  case Leaf
  then show ?case by (simp add: split_Null)
next
  case (Node t1 a t2)
  then have root: "load s treap = Some a" by simp
  show ?case
  proof (cases "k < key_of s a")
    case True
    obtain s1 where "split (LeftOf a) k l (LeftOf a) s = Some s1"
      using Node.IH(1) [of "LeftOf a" l "LeftOf a"] Node.prems by auto
    then show ?thesis by (simp add: split_left [OF root True])
  next
    case False
    obtain s1 where "split (RightOf a) k (RightOf a) r s = Some s1"
      using Node.IH(2) [of "RightOf a" "RightOf a" r] Node.prems by auto
    then show ?thesis by (simp add: split_right [OF root False])
  qed
qed

lemma insert_terminates:
  "tree_at s (load s treap) t \<Longrightarrow> \<exists>s'. insert_treap treap n s = Some s'"
proof (induction t arbitrary: treap)
  case Leaf
  then show ?case by (simp add: insert_Null)
next
  case (Node t1 a t2)
  then have root: "load s treap = Some a" by simp
  show ?case
  proof (cases "prio_of s a > prio_of s n")
    case True
    then show ?thesis
      using Node.IH(1) [of "LeftOf a"] Node.IH(2) [of "RightOf a"] Node.prems
      by (simp add: insert_down [OF root True])
  next
    case False
    obtain s1 where "split treap (key_of s n) (LeftOf n) (RightOf n) s = Some s1"
      using split_terminates [OF Node.prems] by blast
    then show ?thesis by (simp add: insert_here [OF root False])
  qed
qed

lemma split_fields:
  assumes "split treap k l r s = Some s'"
  shows "fields s' = fields s"
proof (rule split.raw_induct [where P = "\<lambda>treap k l r s s'. fields s' = fields s", OF _ assms],
    goal_cases)
  case (1 sp treap k l r s s')
  show ?case
  proof (cases "load s treap")
    case None
    with 1(2) show ?thesis by auto
  next
    case (Some a)
    with 1(2) obtain s1 where
      "sp (LeftOf a) k l (LeftOf a) s = Some s1 \<and> s' = store r (load s1 treap) s1
       \<or> sp (RightOf a) k (RightOf a) r s = Some s1 \<and> s' = store l (load s1 treap) s1"
      by (auto split: if_splits simp: bind_eq_Some_conv)
    then show ?thesis
    proof
      assume a: "sp (LeftOf a) k l (LeftOf a) s = Some s1 \<and> s' = store r (load s1 treap) s1"
      then have "fields s1 = fields s"
        using 1(1) [of "LeftOf a" k l "LeftOf a" s s1] by blast
      with a show ?thesis by simp
    next
      assume a: "sp (RightOf a) k (RightOf a) r s = Some s1 \<and> s' = store l (load s1 treap) s1"
      then have "fields s1 = fields s"
        using 1(1) [of "RightOf a" k "RightOf a" r s s1] by blast
      with a show ?thesis by simp
    qed
  qed
qed

lemma insert_fields:
  assumes "insert_treap treap n s = Some s'"
  shows "fields s' = fields s"
proof (rule insert_treap.raw_induct [where P = "\<lambda>treap n s s'. fields s' = fields s", OF _ assms],
    goal_cases)
  case (1 ins treap n s s')
  show ?case
  proof (cases "load s treap")
    case None
    with 1(2) show ?thesis by auto
  next
    case (Some a)
    show ?thesis
    proof (cases "heap_key (heap s a) > heap_key (heap s n)")
      case True
      with 1(2) Some have
        "ins (if tree_key (heap s n) < tree_key (heap s a) then LeftOf a else RightOf a) n s = Some s'"
        by simp
      then show ?thesis by (rule 1(1))
    next
      case False
      with 1(2) Some obtain s1 where
        "split treap (tree_key (heap s n)) (LeftOf n) (RightOf n) s = Some s1"
        "s' = store treap (Some n) s1"
        by (auto simp: bind_eq_Some_conv)
      then show ?thesis using split_fields [of treap _ _ _ s s1] by simp
    qed
  qed
qed

lemma load_set_prio [simp]: "load (set_prio f s) x = load s x"
  by (cases x) (simp_all add: set_prio_def load.simps)

lemma store_set_prio: "store x p (set_prio f s) = set_prio f (store x p s)"
  by (cases x) (auto simp: set_prio_def store.simps fun_eq_iff)

lemma key_of_set_prio [simp]: "key_of (set_prio f s) = key_of s"
  by (simp add: key_of_def set_prio_def fun_eq_iff)

lemma prio_of_set_prio [simp]: "prio_of (set_prio f s) = f"
  by (simp add: prio_of_def set_prio_def fun_eq_iff)

lemma tree_at_set_prio [simp]: "tree_at (set_prio f s) p t = tree_at s p t"
  by (rule tree_at_frame) simp

lemma split_set_prio:
  "tree_at s (load s treap) t \<Longrightarrow>
   split treap k l r (set_prio f s) = map_option (set_prio f) (split treap k l r s)"
proof (induction t arbitrary: treap l r)
  case Leaf
  then show ?case by (simp add: split_Null store_set_prio)
next
  case (Node t1 a t2)
  then have root: "load s treap = Some a" "load (set_prio f s) treap = Some a" by simp_all
  show ?case
  proof (cases "k < key_of s a")
    case True
    have "split (LeftOf a) k l (LeftOf a) (set_prio f s)
          = map_option (set_prio f) (split (LeftOf a) k l (LeftOf a) s)"
      using Node.prems by (intro Node.IH(1)) simp
    then show ?thesis
      using True by (cases "split (LeftOf a) k l (LeftOf a) s")
        (simp_all add: split_left root store_set_prio)
  next
    case False
    have "split (RightOf a) k (RightOf a) r (set_prio f s)
          = map_option (set_prio f) (split (RightOf a) k (RightOf a) r s)"
      using Node.prems by (intro Node.IH(2)) simp
    then show ?thesis
      using False by (cases "split (RightOf a) k (RightOf a) r s")
        (simp_all add: split_right root store_set_prio)
  qed
qed

subsection \<open>Bounded runs\<close>

lemma exists_n_sound: "exists_n n p k s = Some b \<Longrightarrow> exists p k s = Some b"
proof (induction n arbitrary: p)
  case 0
  then show ?case by simp
next
  case (Suc n)
  show ?case
  proof (cases p)
    case None
    with Suc.prems show ?thesis by (simp add: exists_Null)
  next
    case (Some a)
    show ?thesis
    proof (cases "k = tree_key (heap s a)")
      case True
      with Suc.prems Some show ?thesis by (subst exists.simps) simp
    next
      case False
      with Suc.prems Some have
        "exists_n n (if k < tree_key (heap s a) then left (heap s a) else right (heap s a)) k s = Some b"
        by simp
      then have
        "exists (if k < tree_key (heap s a) then left (heap s a) else right (heap s a)) k s = Some b"
        by (rule Suc.IH)
      with False Some show ?thesis by (subst exists.simps) simp
    qed
  qed
qed

lemma split_n_sound: "split_n n treap k l r s = Some s' \<Longrightarrow> split treap k l r s = Some s'"
proof (induction n arbitrary: treap l r s')
  case 0
  then show ?case by simp
next
  case (Suc n)
  show ?case
  proof (cases "load s treap")
    case None
    with Suc.prems show ?thesis by (subst split.simps) simp
  next
    case (Some a)
    show ?thesis
    proof (cases "k < tree_key (heap s a)")
      case True
      with Suc.prems Some obtain s1 where
        s1: "split_n n (LeftOf a) k l (LeftOf a) s = Some s1" "s' = store r (load s1 treap) s1"
        by (auto simp: bind_eq_Some_conv)
      from Suc.IH [OF s1(1)] True Some s1(2) show ?thesis
        by (subst split.simps) simp
    next
      case False
      with Suc.prems Some obtain s1 where
        s1: "split_n n (RightOf a) k (RightOf a) r s = Some s1" "s' = store l (load s1 treap) s1"
        by (auto simp: bind_eq_Some_conv)
      from Suc.IH [OF s1(1)] False Some s1(2) show ?thesis
        by (subst split.simps) simp
    qed
  qed
qed

lemma insert_n_sound: "insert_n n treap new_node s = Some s' \<Longrightarrow> insert_treap treap new_node s = Some s'"
proof (induction n arbitrary: treap)
  case 0
  then show ?case by simp
next
  case (Suc n)
  show ?case
  proof (cases "load s treap")
    case None
    with Suc.prems show ?thesis by (subst insert_treap.simps) simp
  next
    case (Some a)
    show ?thesis
    proof (cases "heap_key (heap s a) > heap_key (heap s new_node)")
      case True
      with Suc.prems Some have "insert_n n
          (if tree_key (heap s new_node) < tree_key (heap s a) then LeftOf a else RightOf a)
          new_node s = Some s'" by simp
      from Suc.IH [OF this] True Some show ?thesis
        by (subst insert_treap.simps) simp
    next
      case False
      with Suc.prems Some obtain s1 where
        s1: "split_n n treap (tree_key (heap s new_node)) (LeftOf new_node) (RightOf new_node) s = Some s1"
        "s' = store treap (Some new_node) s1"
        by (auto simp: bind_eq_Some_conv)
      from split_n_sound [OF s1(1)] False Some s1(2) show ?thesis
        by (subst insert_treap.simps) simp
    qed
  qed
qed

lemma height_n_sound: "height_n n x s = Some h \<Longrightarrow> height x s = Some h"
proof (induction n arbitrary: x h)
  case 0
  then show ?case by simp
next
  case (Suc n)
  show ?case
  proof (cases "load s x")
    case None
    with Suc.prems show ?thesis by (subst height.simps) simp
  next
    case (Some a)
    with Suc.prems obtain lh rh where
      h: "height_n n (LeftOf a) s = Some lh" "height_n n (RightOf a) s = Some rh"
      "h = 1 + (if lh < rh then rh else lh)"
      by (auto simp: bind_eq_Some_conv)
    from Suc.IH [OF h(1)] Suc.IH [OF h(2)] Some h(3) show ?thesis
      by (subst height.simps) simp
  qed
qed

lemma exists_n_enough:
  "tree_at s p t \<Longrightarrow> depth t < n \<Longrightarrow> \<exists>b. exists_n n p k s = Some b"
proof (induction t arbitrary: p n)
  case Leaf
  then show ?case by (cases n) auto
next
  case (Node l a r)
  then obtain m where n: "n = Suc m" by (cases n) auto
  have "depth l < m" "depth r < m" using Node.prems(2) n by auto
  then have "\<exists>b. exists_n m (load s (LeftOf a)) k s = Some b"
    "\<exists>b. exists_n m (load s (RightOf a)) k s = Some b"
    using Node.IH Node.prems(1) by auto
  then show ?case using Node.prems(1) by (auto simp: n load.simps)
qed

lemma split_n_enough:
  "tree_at s (load s treap) t \<Longrightarrow> depth t < n \<Longrightarrow> \<exists>s'. split_n n treap k l r s = Some s'"
proof (induction t arbitrary: treap l r n)
  case Leaf
  then show ?case by (cases n) auto
next
  case (Node t1 a t2)
  then obtain m where n: "n = Suc m" by (cases n) auto
  have root: "load s treap = Some a" using Node.prems(1) by simp
  have "depth t1 < m" "depth t2 < m" using Node.prems(2) n by auto
  then have "\<exists>s'. split_n m (LeftOf a) k l (LeftOf a) s = Some s'"
    "\<exists>s'. split_n m (RightOf a) k (RightOf a) r s = Some s'"
    using Node.IH Node.prems(1) by auto
  then show ?case by (auto simp: n root)
qed

lemma insert_n_enough:
  "tree_at s (load s treap) t \<Longrightarrow> depth t + 1 < n \<Longrightarrow> \<exists>s'. insert_n n treap new_node s = Some s'"
proof (induction t arbitrary: treap n)
  case Leaf
  then show ?case by (cases n) auto
next
  case (Node t1 a t2)
  then obtain m where n: "n = Suc m" by (cases n) auto
  have root: "load s treap = Some a" using Node.prems(1) by simp
  have "depth t1 + 1 < m" "depth t2 + 1 < m" using Node.prems(2) n by auto
  then have "\<exists>s'. insert_n m (LeftOf a) new_node s = Some s'"
    "\<exists>s'. insert_n m (RightOf a) new_node s = Some s'"
    using Node.IH Node.prems(1) by auto
  moreover have "depth (Node t1 a t2) < m" using Node.prems(2) n by auto
  then have "\<exists>s'. split_n m treap (tree_key (heap s new_node)) (LeftOf new_node) (RightOf new_node) s = Some s'"
    using Node.prems(1) by (rule split_n_enough [rotated])
  ultimately show ?case by (auto simp: n root)
qed

lemma height_n_enough:
  "tree_at s (load s x) t \<Longrightarrow> depth t < n \<Longrightarrow> \<exists>h. height_n n x s = Some h"
proof (induction t arbitrary: x n)
  case Leaf
  then show ?case by (cases n) auto
next
  case (Node l a r)
  then obtain m where n: "n = Suc m" by (cases n) auto
  have root: "load s x = Some a" using Node.prems(1) by simp
  have "depth l < m" "depth r < m" using Node.prems(2) n by auto
  then have "\<exists>h. height_n m (LeftOf a) s = Some h" "\<exists>h. height_n m (RightOf a) s = Some h"
    using Node.IH Node.prems(1) by auto
  then show ?case by (auto simp: n root)
qed

subsection \<open>The cell that holds the root is not inside the tree\<close>

lemma tree_at_unique: "tree_at s p t \<Longrightarrow> tree_at s p t' \<Longrightarrow> t = t'"
proof (induction t arbitrary: p t')
  case Leaf
  then show ?case by (cases t') auto
next
  case (Node l a r)
  then show ?case by (cases t') auto
qed

lemma children_smaller:
  "tree_at s p t \<Longrightarrow> a \<in> set (addrs t) \<Longrightarrow>
   \<exists>l r. tree_at s (load s (LeftOf a)) l \<and> tree_at s (load s (RightOf a)) r
     \<and> size l < size t \<and> size r < size t"
proof (induction t arbitrary: p)
  case Leaf
  then show ?case by simp
next
  case (Node t1 b t2)
  consider "a = b" | "a \<in> set (addrs t1)" | "a \<in> set (addrs t2)"
    using Node.prems(2) by auto
  then show ?case
  proof cases
    case 1
    then show ?thesis using Node.prems(1) by (intro exI [of _ t1] exI [of _ t2]) simp
  next
    case 2
    then obtain l r where "tree_at s (load s (LeftOf a)) l" "tree_at s (load s (RightOf a)) r"
      "size l < size t1" "size r < size t1"
      using Node.IH(1) [of "load s (LeftOf b)"] Node.prems(1) by auto
    then show ?thesis by (intro exI [of _ l] exI [of _ r]) simp
  next
    case 3
    then obtain l r where "tree_at s (load s (LeftOf a)) l" "tree_at s (load s (RightOf a)) r"
      "size l < size t2" "size r < size t2"
      using Node.IH(2) [of "load s (RightOf b)"] Node.prems(1) by auto
    then show ?thesis by (intro exI [of _ l] exI [of _ r]) simp
  qed
qed

lemma root_cell_outside:
  assumes "tree_at s (load s x) t"
  shows "x \<notin> locs t"
proof
  assume "x \<in> locs t"
  then obtain a where a: "a \<in> set (addrs t)" and x: "x = LeftOf a \<or> x = RightOf a"
    by (auto simp: locs_def)
  obtain l r where lr: "tree_at s (load s (LeftOf a)) l" "tree_at s (load s (RightOf a)) r"
    "size l < size t" "size r < size t"
    using children_smaller [OF assms a] by blast
  from x show False
  proof
    assume "x = LeftOf a"
    then have "l = t" using lr(1) assms by (auto dest: tree_at_unique)
    then show False using lr(3) by simp
  next
    assume "x = RightOf a"
    then have "r = t" using lr(2) assms by (auto dest: tree_at_unique)
    then show False using lr(4) by simp
  qed
qed

subsection \<open>Allocation, the read loop and concrete runs\<close>

lemma load_construct [simp]:
  "load (construct a k v p s) x = (if x = LeftOf a \<or> x = RightOf a then None else load s x)"
  by (cases x) (auto simp: construct_def load.simps)

lemma fields_construct [simp]:
  "fields (construct a k v p s) b = (if b = a then (k, v, p) else fields s b)"
  by (simp add: construct_def fields_def)

lemma key_of_store [simp]: "key_of (store x p s) = key_of s"
  by (simp add: key_of_fields)

lemma prio_of_store [simp]: "prio_of (store x p s) = prio_of s"
  by (simp add: prio_of_fields)

lemma key_of_construct [simp]:
  "key_of (construct a k v p s) b = (if b = a then k else key_of s b)"
  by (simp add: key_of_fields)

lemma prio_of_construct [simp]:
  "prio_of (construct a k v p s) b = (if b = a then p else prio_of s b)"
  by (simp add: prio_of_fields)

lemma load_init [simp]: "load init_state x = None"
  by (cases x) (simp_all add: init_state_def load.simps)

lemma tree_at_construct:
  "a \<notin> set (addrs t) \<Longrightarrow> tree_at (construct a k v p s) q t = tree_at s q t"
  by (rule tree_at_frame) (auto simp: locs_def)

lemma build_inv:
  assumes "tree_at s (load s (Var 0)) t" "distinct (addrs t)" "\<forall>b \<in> set (addrs t). b < a"
      and "bst (key_of s) t" "heap_inv (prio_of s) t"
      and "distinct (map fst kvs)" "key_of s ` set (addrs t) \<inter> fst ` set kvs = {}"
  shows "\<exists>s' t'. build a kvs s = Some s' \<and> tree_at s' (load s' (Var 0)) t' \<and> distinct (addrs t')
           \<and> bst (key_of s') t' \<and> heap_inv (prio_of s') t'"
  using assms
proof (induction kvs arbitrary: a s t)
  case Nil
  then show ?case by auto
next
  case (Cons kvp kvs)
  obtain k v p where kvp: "kvp = (k, v, p)" by (cases kvp)
  let ?c = "construct a k v p s"
  have fresh: "a \<notin> set (addrs t)" using Cons.prems(3) by auto
  have knew: "k \<notin> key_of s ` set (addrs t)" "k \<notin> fst ` set kvs"
    using Cons.prems(6,7) kvp by auto
  have same: "key_of ?c b = key_of s b" "prio_of ?c b = prio_of s b" if "b \<in> set (addrs t)" for b
    using that fresh by auto
  have tc: "tree_at ?c (load ?c (Var 0)) t"
    using Cons.prems(1) fresh by (simp add: tree_at_construct)
  have "\<exists>s1. insert_treap (Var 0) a ?c = Some s1 \<and> insert_post t (Var 0) a ?c s1"
    using tc Cons.prems(2) fresh by (intro insert_effect) (auto simp: locs_def)
  then obtain s1 where run: "insert_treap (Var 0) a ?c = Some s1"
    and post: "insert_post t (Var 0) a ?c s1" by blast
  let ?t1 = "ins (key_of ?c) (prio_of ?c) a t"
  from post have fl: "fields s1 = fields ?c" and t1: "tree_at s1 (load s1 (Var 0)) ?t1"
    by (auto simp: insert_post_def)
  have K: "key_of s1 = key_of ?c" and P: "prio_of s1 = prio_of ?c"
    using fl by (simp_all add: key_of_fields prio_of_fields)
  have sub: "set (addrs ?t1) \<subseteq> insert a (set (addrs t))"
    by (rule set_addrs_ins)
  have d1: "distinct (addrs ?t1)"
    using Cons.prems(2) fresh by (rule distinct_ins)
  have "bst (key_of ?c) t"
    using Cons.prems(4) same bst_cong [of t "key_of ?c" "key_of s"] by blast
  moreover have "key_of ?c a \<notin> key_of ?c ` set (addrs t)"
    using knew(1) same(1) by (auto simp: image_iff)
  ultimately have b1: "bst (key_of s1) ?t1"
    unfolding K by (rule bst_ins)
  have "heap_inv (prio_of ?c) t"
    using Cons.prems(5) same heap_inv_cong [of t "prio_of ?c" "prio_of s"] by blast
  then have h1: "heap_inv (prio_of s1) ?t1"
    unfolding P by (rule heap_inv_ins)
  have lt: "\<forall>b \<in> set (addrs ?t1). b < a + 1"
    using sub Cons.prems(3) by (auto simp: less_Suc_eq)
  have "key_of s1 ` set (addrs ?t1) \<subseteq> insert k (key_of s ` set (addrs t))"
  proof
    fix x assume "x \<in> key_of s1 ` set (addrs ?t1)"
    then obtain b where b: "b \<in> set (addrs ?t1)" "x = key_of ?c b" unfolding K by blast
    then have "b = a \<or> b \<in> set (addrs t)" using sub by blast
    then show "x \<in> insert k (key_of s ` set (addrs t))"
      using b(2) same(1) by auto
  qed
  moreover have "insert k (key_of s ` set (addrs t)) \<inter> fst ` set kvs = {}"
    using knew(2) Cons.prems(7) by auto
  ultimately have dj: "key_of s1 ` set (addrs ?t1) \<inter> fst ` set kvs = {}"
    by blast
  have "distinct (map fst kvs)" using Cons.prems(6) by simp
  from Cons.IH [OF t1 d1 lt b1 h1 this dj]
  show ?case by (simp add: kvp run)
qed

lemmas run_simps = split_Null split_left split_right insert_Null insert_down insert_here
  exists_Null exists_Node height_Null height_Node numeral_2_eq_2 numeral_3_eq_3

lemma build_two_nodes: "build 1 [(10, 0, 2), (5, 0, 1)] init_state = Some two_nodes"
  by (simp add: run_simps two_nodes_def)

lemma two_nodes_hyps:
  "tree_at two_nodes (load two_nodes (Var 0)) (Node (Node Leaf 2 Leaf) 1 Leaf)"
  "distinct (addrs (Node (Node Leaf 2 Leaf) 1 Leaf))"
  "Var 0 \<notin> locs (Node (Node Leaf 2 Leaf) 1 Leaf)"
  "Var 1 \<notin> locs (Node (Node Leaf 2 Leaf) 1 Leaf)"
  "Var 2 \<notin> locs (Node (Node Leaf 2 Leaf) 1 Leaf)"
  by (simp_all add: two_nodes_def locs_def numeral_2_eq_2)

section \<open>The claims\<close>

text \<open>
  In every statement below a tree is a shape \<open>t\<close> with \<open>tree_at s (load s treap) t\<close> and
  \<open>distinct (addrs t)\<close>, held in the cell \<open>treap\<close>. The output cells \<open>l\<close> and \<open>r\<close> of \<open>split\<close> are
  two cells that are not child fields of the tree's own nodes (\<open>\<notin> locs t\<close>), as in every
  call the program makes. A new node \<open>n\<close> is one that is not in the tree and has both
  children null, as the constructor leaves it, and \<open>treap\<close> is not one of its fields.
\<close>

subsection \<open>C1: split as a partition\<close>

text \<open>
  Claim C1. For every tree \<open>T\<close> (a search tree with distinct keys) and pivot \<open>k\<close>,
  \<open>split(T, k) = (L, R)\<close> where every key of \<open>L\<close> is below \<open>k\<close>, every key of \<open>R\<close> is at least \<open>k\<close>,
  and the keys of \<open>L\<close> and \<open>R\<close> together are the keys of \<open>T\<close>.

  The code loses nodes. Take the tree with root 10 (node 1) and left child 5 (node 2),
  held in \<^verbatim>\<open>x\<close>, and the call \<^verbatim>\<open>split(x, 7, l, r)\<close>:
  \<^item> call A: \<open>treap\<close> is \<^verbatim>\<open>x\<close>; \<open>7 < 10\<close>, so it calls \<^verbatim>\<open>split(n1->left, 7, l, n1->left)\<close>;
  \<^item> call B: \<open>treap\<close> and \<open>r\<close> are both the cell \<^verbatim>\<open>n1->left\<close>, which holds node 2; \<open>7 < 5\<close> fails,
    so it calls \<^verbatim>\<open>split(n2->right, 7, n2->right, r)\<close>;
  \<^item> call C: \<open>treap\<close> is \<^verbatim>\<open>n2->right\<close>, null, so \<^verbatim>\<open>l = r = NULL\<close> sets \<^verbatim>\<open>n1->left\<close> and
    \<^verbatim>\<open>n2->right\<close> to null;
  \<^item> back in B, \<^verbatim>\<open>l = treap\<close> reads \<^verbatim>\<open>n1->left\<close>, now null, into \<open>l\<close>: node 2 is gone;
  \<^item> back in A, \<^verbatim>\<open>r = treap\<close> stores node 1 in \<open>r\<close>.

  The theorem evaluates the model on this input: the left result is empty, the right
  result is the single node with key 10, and key 5 is in neither.
\<close>

theorem split_drops_node:
  "build 1 [(10, 0, 2), (5, 0, 1)] init_state = Some two_nodes
   \<and> tree_at two_nodes (load two_nodes (Var 0)) (Node (Node Leaf 2 Leaf) 1 Leaf)
   \<and> keys two_nodes (Node (Node Leaf 2 Leaf) 1 Leaf) = [5, 10]
   \<and> (\<exists>s'. split (Var 0) 7 (Var 1) (Var 2) two_nodes = Some s'
         \<and> tree_at s' (load s' (Var 1)) Leaf
         \<and> tree_at s' (load s' (Var 2)) (Node Leaf 1 Leaf)
         \<and> keys s' (Node Leaf 1 Leaf) = [10])"
  by (simp add: run_simps keys_def two_nodes_def)

subsection \<open>C2: insert keeps the search-tree and heap invariants\<close>

text \<open>
  Claim C2. Every tree built from the empty tree by a sequence of inserts of nodes with
  pairwise distinct keys is a search tree (keys in a left subtree are smaller, keys in
  a right subtree larger than the node's key) and a heap (a node's priority is at most
  its parent's).

  The read loop of \<^verbatim>\<open>main\<close> is such a sequence: it starts with \<^verbatim>\<open>x\<close> null and inserts one new
  node per pair. Whatever the priorities are, the loop returns and leaves in \<^verbatim>\<open>x\<close> a
  tree of distinct nodes with both invariants. (The nodes that \<open>split\<close> drops are
  missing from that tree; what remains is ordered.)
\<close>

theorem insert_keeps_invariants:
  assumes "load s (Var 0) = None" "distinct (map fst kvs)"
  shows "\<exists>s' t. build a kvs s = Some s' \<and> tree_at s' (load s' (Var 0)) t \<and> distinct (addrs t)
           \<and> bst (key_of s') t \<and> heap_inv (prio_of s') t"
  using assms by (intro build_inv [where t = Leaf]) simp_all

theorem insert_keeps_invariants_witness:
  "load init_state (Var 0) = None
   \<and> distinct (map fst [(10 :: int, 0 :: int, 2 :: int), (5, 0, 1), (7, 0, 3)])
   \<and> (\<exists>s' t. build 1 [(10, 0, 2), (5, 0, 1), (7, 0, 3)] init_state = Some s'
         \<and> tree_at s' (load s' (Var 0)) t \<and> distinct (addrs t)
         \<and> bst (key_of s') t \<and> heap_inv (prio_of s') t)"
proof -
  have h: "load init_state (Var 0) = None"
    "distinct (map fst [(10 :: int, 0 :: int, 2 :: int), (5, 0, 1), (7, 0, 3)])"
    by simp_all
  show ?thesis
    using h insert_keeps_invariants [OF h, of 1] by blast
qed

subsection \<open>C3: split keeps both invariants and never reads a priority\<close>

text \<open>
  Claim C3. For every tree with the search-tree and heap invariants and every pivot,
  both trees that \<open>split\<close> returns have both invariants, and the computation uses key
  comparisons only, never a priority.

  The second part is stated as independence: replace the priorities of all nodes by
  any others (\<open>set_prio f\<close>) and \<open>split\<close> returns the same state, with those priorities.
\<close>

theorem split_keeps_invariants:
  assumes "tree_at s (load s treap) t" "distinct (addrs t)"
      and "l \<notin> locs t" "r \<notin> locs t" "l \<noteq> r"
      and "bst (key_of s) t" "heap_inv (prio_of s) t"
  shows "\<exists>s' tl tr. split treap k l r s = Some s'
           \<and> tree_at s' (load s' l) tl \<and> bst (key_of s') tl \<and> heap_inv (prio_of s') tl
           \<and> tree_at s' (load s' r) tr \<and> bst (key_of s') tr \<and> heap_inv (prio_of s') tr
           \<and> (\<forall>f. split treap k l r (set_prio f s) = Some (set_prio f s'))"
proof -
  obtain s' where run: "split treap k l r s = Some s'" and post: "split_post t treap k l r s s'"
    using split_effect [OF assms(1,2) root_cell_outside [OF assms(1)] assms(3-5)] by blast
  let ?tl = "if treap = r then Leaf else cutR (key_of s) k t"
  let ?tr = "if treap = l then Leaf else cutL (key_of s) k t"
  from post have fl: "fields s' = fields s"
    and L: "tree_at s' (load s' l) ?tl" and R: "tree_at s' (load s' r) ?tr"
    by (auto simp: split_post_def)
  have K: "key_of s' = key_of s" and P: "prio_of s' = prio_of s"
    using fl by (simp_all add: key_of_fields prio_of_fields)
  have "bst (key_of s') ?tl" "bst (key_of s') ?tr"
    using assms(6) by (simp_all add: K bst_cutL bst_cutR)
  moreover have "heap_inv (prio_of s') ?tl" "heap_inv (prio_of s') ?tr"
    using assms(7) by (simp_all add: P heap_inv_cutL heap_inv_cutR)
  moreover have "\<forall>f. split treap k l r (set_prio f s) = Some (set_prio f s')"
    using split_set_prio [OF assms(1)] run by simp
  ultimately show ?thesis using run L R by blast
qed

theorem split_keeps_invariants_witness:
  "tree_at two_nodes (load two_nodes (Var 0)) (Node (Node Leaf 2 Leaf) 1 Leaf)
   \<and> distinct (addrs (Node (Node Leaf 2 Leaf) 1 Leaf))
   \<and> Var 1 \<notin> locs (Node (Node Leaf 2 Leaf) 1 Leaf)
   \<and> Var 2 \<notin> locs (Node (Node Leaf 2 Leaf) 1 Leaf)
   \<and> Var 1 \<noteq> Var 2
   \<and> bst (key_of two_nodes) (Node (Node Leaf 2 Leaf) 1 Leaf)
   \<and> heap_inv (prio_of two_nodes) (Node (Node Leaf 2 Leaf) 1 Leaf)
   \<and> (\<exists>s' tl tr. split (Var 0) 7 (Var 1) (Var 2) two_nodes = Some s'
           \<and> tree_at s' (load s' (Var 1)) tl \<and> bst (key_of s') tl \<and> heap_inv (prio_of s') tl
           \<and> tree_at s' (load s' (Var 2)) tr \<and> bst (key_of s') tr \<and> heap_inv (prio_of s') tr
           \<and> (\<forall>f. split (Var 0) 7 (Var 1) (Var 2) (set_prio f two_nodes) = Some (set_prio f s')))"
proof -
  let ?t = "Node (Node Leaf 2 Leaf) 1 Leaf"
  have h: "tree_at two_nodes (load two_nodes (Var 0)) ?t" "distinct (addrs ?t)"
    "Var 1 \<notin> locs ?t" "Var 2 \<notin> locs ?t" "Var 1 \<noteq> Var 2"
    "bst (key_of two_nodes) ?t" "heap_inv (prio_of two_nodes) ?t"
    by (simp_all add: two_nodes_def locs_def numeral_2_eq_2)
  show ?thesis
    using h split_keeps_invariants [OF h, of 7] by blast
qed

subsection \<open>C4: the steps of insert\<close>

text \<open>
  Claim C4. \<open>insert(T, newNode)\<close> makes \<open>newNode\<close> the root when \<open>T\<close> is empty; when the
  root's priority is strictly greater than \<open>newNode\<close>'s it inserts into the left child
  if \<open>newNode\<close>'s key is smaller than the root's and into the right child otherwise,
  and the root stays; otherwise it splits \<open>T\<close> at \<open>newNode\<close>'s key, with \<open>newNode\<close>'s left
  and right fields as the two outputs, and makes \<open>newNode\<close> the root.
\<close>

theorem insert_steps:
  assumes "tree_at s (load s treap) t" "distinct (addrs t)"
      and "n \<notin> set (addrs t)" "treap \<noteq> LeftOf n" "treap \<noteq> RightOf n"
      and "load s (LeftOf n) = None" "load s (RightOf n) = None"
  shows "\<exists>s'. insert_treap treap n s = Some s' \<and>
           (case load s treap of
              None \<Rightarrow> s' = store treap (Some n) s
            | Some a \<Rightarrow>
                if prio_of s a > prio_of s n then
                  insert_treap (if key_of s n < key_of s a then LeftOf a else RightOf a) n s
                    = Some s'
                  \<and> load s' treap = Some a
                else
                  (\<exists>s1. split treap (key_of s n) (LeftOf n) (RightOf n) s = Some s1
                     \<and> s' = store treap (Some n) s1))"
proof -
  obtain s' where run: "insert_treap treap n s = Some s'" and post: "insert_post t treap n s s'"
    using insert_effect [OF assms(1,2) root_cell_outside [OF assms(1)] assms(3-7)] by blast
  show ?thesis
  proof (cases t)
    case Leaf
    then have "load s treap = None" using assms(1) by simp
    then show ?thesis by (simp add: insert_Null)
  next
    case (Node t1 a t2)
    then have root: "load s treap = Some a" using assms(1) by simp
    show ?thesis
    proof (cases "prio_of s a > prio_of s n")
      case True
      have "tree_at s' (load s' treap) (ins (key_of s) (prio_of s) n t)"
        using post by (simp add: insert_post_def)
      then have "load s' treap = Some a"
        using Node True by (simp split: if_splits)
      moreover have "insert_treap
          (if key_of s n < key_of s a then LeftOf a else RightOf a) n s = Some s'"
        using insert_down [OF root True] run by simp
      ultimately show ?thesis
        using run root True by simp
    next
      case False
      obtain s1 where "split treap (key_of s n) (LeftOf n) (RightOf n) s = Some s1"
        using split_terminates [OF assms(1)] by blast
      then show ?thesis
        using insert_here [OF root False] root False by simp
    qed
  qed
qed

theorem insert_steps_witness:
  "tree_at two_nodes (load two_nodes (Var 0)) (Node (Node Leaf 2 Leaf) 1 Leaf)
   \<and> distinct (addrs (Node (Node Leaf 2 Leaf) 1 Leaf))
   \<and> 3 \<notin> set (addrs (Node (Node Leaf 2 Leaf) 1 Leaf))
   \<and> Var 0 \<noteq> LeftOf 3 \<and> Var 0 \<noteq> RightOf 3
   \<and> load (construct 3 7 0 3 two_nodes) (LeftOf 3) = None
   \<and> load (construct 3 7 0 3 two_nodes) (RightOf 3) = None
   \<and> (\<exists>s' s1. insert_treap (Var 0) 3 (construct 3 7 0 3 two_nodes) = Some s'
         \<and> split (Var 0) 7 (LeftOf 3) (RightOf 3) (construct 3 7 0 3 two_nodes) = Some s1
         \<and> s' = store (Var 0) (Some 3) s1)"
proof -
  let ?t = "Node (Node Leaf 2 Leaf) 1 Leaf" and ?s = "construct 3 7 0 3 two_nodes"
  have h: "tree_at ?s (load ?s (Var 0)) ?t" "distinct (addrs ?t)"
    "3 \<notin> set (addrs ?t)" "Var 0 \<noteq> LeftOf 3" "Var 0 \<noteq> RightOf 3"
    "load ?s (LeftOf 3) = None" "load ?s (RightOf 3) = None"
    by (simp_all add: two_nodes_def locs_def numeral_2_eq_2 numeral_3_eq_3)
  have e: "load ?s (Var 0) = Some 1" "\<not> prio_of ?s 1 > prio_of ?s 3" "key_of ?s 3 = 7"
    by (simp_all add: two_nodes_def numeral_2_eq_2 numeral_3_eq_3)
  show ?thesis
    using two_nodes_hyps h insert_steps [OF h] e by auto
qed

subsection \<open>C5: exists finds exactly the inserted keys\<close>

text \<open>
  Claim C5. \<open>exists\<close> is total and has no effect; on the empty tree it is false; and for
  every tree built by inserts alone (distinct keys) \<open>exists(T, k)\<close> is true exactly when \<open>k\<close>
  was the key of an inserted node.

  The code breaks the last part: \<open>insert\<close> calls \<open>split\<close>, and \<open>split\<close> drops nodes (see C1).
  \<^verbatim>\<open>main\<close> reads \<open>(10, 0)\<close>, \<open>(5, 0)\<close>, \<open>(7, 0)\<close> while \<^verbatim>\<open>rand()\<close> returns 2, 1, 3. The third node has
  the highest priority, so it becomes the root by splitting the tree of C1 at 7, and
  key 5 is lost: \<^verbatim>\<open>exists(x, 5)\<close> is false although 5 was inserted. This is what the
  assertions under \<^verbatim>\<open>SANITY_CHECK\<close> in \<^verbatim>\<open>main\<close> test.
\<close>

theorem exists_misses_inserted_key:
  "\<exists>s. build 1 [(10, 0, 2), (5, 0, 1), (7, 0, 3)] init_state = Some s
     \<and> exists (load s (Var 0)) 5 s = Some False"
  by (simp add: run_simps)

subsection \<open>C6: insert adds one key\<close>

text \<open>
  Claim C6. For every tree \<open>T\<close> built by inserts and every new node whose key is not in
  \<open>T\<close>, the tree after the insert has one key more than \<open>T\<close>.

  The code breaks this for the same reason as in C1. The tree built from \<open>(10, 0)\<close>, \<open>(5, 0)\<close>
  with priorities 2, 1 has the keys 5 and 10. Inserting a new node with key 7 and
  priority 3 leaves a tree with the keys 7 and 10: two keys, not three.
\<close>

theorem insert_loses_size:
  "build 1 [(10, 0, 2), (5, 0, 1)] init_state = Some two_nodes
   \<and> tree_at two_nodes (load two_nodes (Var 0)) (Node (Node Leaf 2 Leaf) 1 Leaf)
   \<and> keys two_nodes (Node (Node Leaf 2 Leaf) 1 Leaf) = [5, 10]
   \<and> (\<exists>s'. insert_treap (Var 0) 3 (construct 3 7 0 3 two_nodes) = Some s'
         \<and> tree_at s' (load s' (Var 0)) (Node Leaf 3 (Node Leaf 1 Leaf))
         \<and> keys s' (Node Leaf 3 (Node Leaf 1 Leaf)) = [7, 10])"
  by (simp add: run_simps keys_def two_nodes_def)

subsection \<open>C7: height\<close>

text \<open>
  Claim C7. The height of the empty tree is 0, the height of a non-empty tree is one
  more than the larger of the heights of its two subtrees; that is the number of nodes
  on a longest path from the root to a leaf.
\<close>

theorem height_correct:
  assumes "tree_at s (load s x) t"
  shows "height x s = Some (Max (set (map length (paths t))))
         \<and> (case load s x of
               None \<Rightarrow> height x s = Some 0
             | Some a \<Rightarrow>
                 \<exists>hl hr. height (LeftOf a) s = Some hl \<and> height (RightOf a) s = Some hr
                   \<and> height x s = Some (1 + max hl hr))"
proof -
  have "height x s = Some (Max (set (map length (paths t))))"
    using height_tree_at [OF assms] depth_paths [of t] by simp
  moreover have "height x s = Some 0" if "load s x = None"
    using that by (rule height_Null)
  moreover have "\<exists>hl hr. height (LeftOf a) s = Some hl \<and> height (RightOf a) s = Some hr
        \<and> height x s = Some (1 + max hl hr)" if a: "load s x = Some a" for a
  proof -
    obtain l r where "t = Node l a r"
      using assms a by (cases t) auto
    then have "height (LeftOf a) s = Some (depth l)" "height (RightOf a) s = Some (depth r)"
      using assms by (auto simp: a intro: height_tree_at)
    then show ?thesis by (simp add: height_Node [OF a])
  qed
  ultimately show ?thesis by (simp split: option.split)
qed

theorem height_correct_witness:
  "tree_at two_nodes (load two_nodes (Var 0)) (Node (Node Leaf 2 Leaf) 1 Leaf)
   \<and> height (Var 0) two_nodes = Some 2
   \<and> height (LeftOf 1) two_nodes = Some 1 \<and> height (RightOf 1) two_nodes = Some 0"
proof -
  have h: "tree_at two_nodes (load two_nodes (Var 0)) (Node (Node Leaf 2 Leaf) 1 Leaf)"
    by (rule two_nodes_hyps)
  have l: "load two_nodes (Var 0) = Some 1"
    by (simp add: two_nodes_def)
  have "height (LeftOf 1) two_nodes = Some 1" "height (RightOf 1) two_nodes = Some 0"
    by (simp_all add: run_simps two_nodes_def)
  then show ?thesis
    using h height_correct [OF h] l by simp
qed

subsection \<open>C8: termination\<close>

text \<open>
  Claim C8. Each of \<open>split\<close>, \<open>insert\<close>, \<open>exists\<close> and \<open>height\<close> terminates on every finite
  tree: every recursive call works on a child of the node it was called on, so the
  operations are bounded by the depth of the tree.

  In the model not returning is the result \<open>None\<close>. Wherever the pointer has a shape
  (which is finite), each operation returns, and it returns already when calls may nest
  no deeper than the depth of the tree plus one (plus two for \<open>insert\<close>, which descends and
  then calls \<open>split\<close>). No other assumption is needed, not even that nodes are distinct.
\<close>

theorem operations_terminate:
  assumes "tree_at s (load s treap) t"
  shows "\<exists>s1 s2 b h.
           split_n (depth t + 1) treap k l r s = Some s1 \<and> split treap k l r s = Some s1
         \<and> insert_n (depth t + 2) treap n s = Some s2 \<and> insert_treap treap n s = Some s2
         \<and> exists_n (depth t + 1) (load s treap) k s = Some b \<and> exists (load s treap) k s = Some b
         \<and> height_n (depth t + 1) treap s = Some h \<and> height treap s = Some h"
proof -
  have d: "depth t < depth t + 1" "depth t + 1 < depth t + 2" by simp_all
  obtain s1 where s1: "split_n (depth t + 1) treap k l r s = Some s1"
    using split_n_enough [OF assms d(1)] by blast
  obtain s2 where s2: "insert_n (depth t + 2) treap n s = Some s2"
    using insert_n_enough [OF assms d(2)] by blast
  obtain b where b: "exists_n (depth t + 1) (load s treap) k s = Some b"
    using exists_n_enough [OF assms d(1)] by blast
  obtain h where h: "height_n (depth t + 1) treap s = Some h"
    using height_n_enough [OF assms d(1)] by blast
  show ?thesis
    using s1 s2 b h split_n_sound [OF s1] insert_n_sound [OF s2] exists_n_sound [OF b]
      height_n_sound [OF h] by blast
qed

theorem operations_terminate_witness:
  "tree_at two_nodes (load two_nodes (Var 0)) (Node (Node Leaf 2 Leaf) 1 Leaf)
   \<and> (\<exists>s1 s2 b h.
           split_n 3 (Var 0) 7 (Var 1) (Var 2) two_nodes = Some s1
         \<and> split (Var 0) 7 (Var 1) (Var 2) two_nodes = Some s1
         \<and> insert_n 4 (Var 0) 3 two_nodes = Some s2 \<and> insert_treap (Var 0) 3 two_nodes = Some s2
         \<and> exists_n 3 (load two_nodes (Var 0)) 7 two_nodes = Some b
         \<and> exists (load two_nodes (Var 0)) 7 two_nodes = Some b
         \<and> height_n 3 (Var 0) two_nodes = Some h \<and> height (Var 0) two_nodes = Some h)"
  using two_nodes_hyps(1) operations_terminate [OF two_nodes_hyps(1), of 7 "Var 1" "Var 2" 3]
  by (simp add: numeral_2_eq_2 numeral_3_eq_3 eval_nat_numeral)

subsection \<open>C9: key, value and priority never change\<close>

text \<open>
  Claim C9. No operation changes the key, value or priority of a node; \<open>insert\<close> and
  \<open>split\<close> only rewrite \<^verbatim>\<open>left\<close> and \<open>right\<close> links.

  \<open>fields s a\<close> is the triple of key, value and priority of the node at \<open>a\<close>. Whenever
  \<open>split\<close> or \<open>insert\<close> returns, the triple of every node (in the tree or not) is what it
  was; this needs no assumption on the state. \<open>exists\<close> and \<open>height\<close> assign to nothing:
  they return a value and no state.
\<close>

theorem payload_unchanged:
  "(split treap k l r s = Some s' \<longrightarrow> fields s' = fields s)
   \<and> (insert_treap treap n s = Some s' \<longrightarrow> fields s' = fields s)"
  using split_fields insert_fields by blast

theorem payload_unchanged_witness:
  "\<exists>s1 s2. split (Var 0) 7 (Var 1) (Var 2) two_nodes = Some s1 \<and> fields s1 = fields two_nodes
     \<and> insert_treap (Var 0) 3 (construct 3 7 0 3 two_nodes) = Some s2
     \<and> fields s2 = fields (construct 3 7 0 3 two_nodes)"
proof -
  let ?c = "construct 3 7 0 3 two_nodes"
  have "tree_at ?c (load ?c (Var 0)) (Node (Node Leaf 2 Leaf) 1 Leaf)"
    by (simp add: two_nodes_def numeral_2_eq_2 numeral_3_eq_3)
  then obtain s1 s2 where r: "split (Var 0) 7 (Var 1) (Var 2) two_nodes = Some s1"
    "insert_treap (Var 0) 3 ?c = Some s2"
    using split_terminates [OF two_nodes_hyps(1)] insert_terminates by blast
  then show ?thesis
    using payload_unchanged [of "Var 0" 7 "Var 1" "Var 2" two_nodes s1]
      payload_unchanged [of "Var 0" _ _ _ ?c s2 3] by blast
qed

subsection \<open>C10: height bounds\<close>

text \<open>
  Claim C10. Each of the two trees that \<open>split(T, k)\<close> returns has height at most the
  height of \<open>T\<close>; so the height of \<open>insert(T, n)\<close> is at most the height of \<open>T\<close> plus one, and
  at least 1.
\<close>

theorem height_bounds:
  assumes "tree_at s (load s treap) t" "distinct (addrs t)"
  shows "(l \<notin> locs t \<and> r \<notin> locs t \<and> l \<noteq> r \<longrightarrow>
            (\<exists>s' h hl hr. height treap s = Some h \<and> split treap k l r s = Some s'
               \<and> height l s' = Some hl \<and> height r s' = Some hr \<and> hl \<le> h \<and> hr \<le> h))
         \<and> (n \<notin> set (addrs t) \<and> treap \<noteq> LeftOf n \<and> treap \<noteq> RightOf n
              \<and> load s (LeftOf n) = None \<and> load s (RightOf n) = None \<longrightarrow>
            (\<exists>s' h h'. height treap s = Some h \<and> insert_treap treap n s = Some s'
               \<and> height treap s' = Some h' \<and> 1 \<le> h' \<and> h' \<le> h + 1))"
proof (intro conjI impI)
  assume lr: "l \<notin> locs t \<and> r \<notin> locs t \<and> l \<noteq> r"
  then obtain s' where run: "split treap k l r s = Some s'" and post: "split_post t treap k l r s s'"
    using split_effect [OF assms root_cell_outside [OF assms(1)]] by blast
  let ?tl = "if treap = r then Leaf else cutR (key_of s) k t"
  let ?tr = "if treap = l then Leaf else cutL (key_of s) k t"
  from post have "tree_at s' (load s' l) ?tl" "tree_at s' (load s' r) ?tr"
    by (auto simp: split_post_def)
  then have "height l s' = Some (depth ?tl)" "height r s' = Some (depth ?tr)"
    by (simp_all only: height_tree_at)
  moreover have "depth ?tl \<le> depth t" "depth ?tr \<le> depth t"
    by (simp_all add: depth_cutL depth_cutR)
  ultimately show "\<exists>s' h hl hr. height treap s = Some h \<and> split treap k l r s = Some s'
               \<and> height l s' = Some hl \<and> height r s' = Some hr \<and> hl \<le> h \<and> hr \<le> h"
    using run height_tree_at [OF assms(1)] by blast
next
  assume n: "n \<notin> set (addrs t) \<and> treap \<noteq> LeftOf n \<and> treap \<noteq> RightOf n
              \<and> load s (LeftOf n) = None \<and> load s (RightOf n) = None"
  then obtain s' where run: "insert_treap treap n s = Some s'" and post: "insert_post t treap n s s'"
    using insert_effect [OF assms root_cell_outside [OF assms(1)], of n] by blast
  let ?t' = "ins (key_of s) (prio_of s) n t"
  from post have "tree_at s' (load s' treap) ?t'"
    by (simp add: insert_post_def)
  then have "height treap s' = Some (depth ?t')"
    by (rule height_tree_at)
  moreover have "1 \<le> depth ?t'" "depth ?t' \<le> depth t + 1"
    by (rule depth_ins_ge, rule depth_ins_le)
  ultimately show "\<exists>s' h h'. height treap s = Some h \<and> insert_treap treap n s = Some s'
               \<and> height treap s' = Some h' \<and> 1 \<le> h' \<and> h' \<le> h + 1"
    using run height_tree_at [OF assms(1)] by blast
qed

theorem height_bounds_witness:
  "tree_at two_nodes (load two_nodes (Var 0)) (Node (Node Leaf 2 Leaf) 1 Leaf)
   \<and> distinct (addrs (Node (Node Leaf 2 Leaf) 1 Leaf))
   \<and> Var 1 \<notin> locs (Node (Node Leaf 2 Leaf) 1 Leaf)
   \<and> Var 2 \<notin> locs (Node (Node Leaf 2 Leaf) 1 Leaf)
   \<and> Var 1 \<noteq> Var 2
   \<and> (\<exists>s' h hl hr. height (Var 0) two_nodes = Some h
         \<and> split (Var 0) 7 (Var 1) (Var 2) two_nodes = Some s'
         \<and> height (Var 1) s' = Some hl \<and> height (Var 2) s' = Some hr \<and> hl \<le> h \<and> hr \<le> h)
   \<and> 3 \<notin> set (addrs (Node (Node Leaf 2 Leaf) 1 Leaf))
   \<and> Var 0 \<noteq> LeftOf 3 \<and> Var 0 \<noteq> RightOf 3
   \<and> load (construct 3 7 0 3 two_nodes) (LeftOf 3) = None
   \<and> load (construct 3 7 0 3 two_nodes) (RightOf 3) = None
   \<and> (\<exists>s' h h'. height (Var 0) (construct 3 7 0 3 two_nodes) = Some h
         \<and> insert_treap (Var 0) 3 (construct 3 7 0 3 two_nodes) = Some s'
         \<and> height (Var 0) s' = Some h' \<and> 1 \<le> h' \<and> h' \<le> h + 1)"
proof -
  let ?t = "Node (Node Leaf 2 Leaf) 1 Leaf" and ?c = "construct 3 7 0 3 two_nodes"
  have c: "tree_at ?c (load ?c (Var 0)) ?t" "distinct (addrs ?t)"
    by (simp_all add: two_nodes_def numeral_2_eq_2 numeral_3_eq_3)
  have n: "3 \<notin> set (addrs ?t)" "Var 0 \<noteq> LeftOf 3" "Var 0 \<noteq> RightOf 3"
    "load ?c (LeftOf 3) = None" "load ?c (RightOf 3) = None" "Var 1 \<noteq> Var 2"
    by (simp_all add: numeral_2_eq_2 numeral_3_eq_3)
  show ?thesis
    using two_nodes_hyps n
      height_bounds [OF two_nodes_hyps(1,2), of "Var 1" "Var 2" 7]
      height_bounds [OF c, of _ _ 3]
    by blast
qed

end
